theory Spec2Isabelle
  imports Main "HOL-Library.Word"
begin

unbundle bit_operations_syntax

section \<open>The reader state of BinParser.c\<close>

text \<open>
  \<^verbatim>\<open>struct BinParser_\<close> of \<^verbatim>\<open>BinParser_local.h\<close>: the borrowed buffer, its length and the
  cursor. \<^verbatim>\<open>bufLen\<close> and \<^verbatim>\<open>posByte\<close> are \<^verbatim>\<open>uint64_t\<close>, \<^verbatim>\<open>posBit\<close> is \<^verbatim>\<open>unsigned int\<close>
  (32 bits). The bytes behind the pointer \<^verbatim>\<open>buf\<close> are a list.
\<close>

type_synonym u8 = "8 word"
type_synonym u32 = "32 word"
type_synonym u64 = "64 word"

record BinParser =
  buf :: "u8 list"
  bufLen :: u64
  posByte :: u64
  posBit :: u32

text \<open>
  What C leaves undefined is a value of the model: a read of \<^verbatim>\<open>buf\<close> at an index that is
  not below \<^verbatim>\<open>bufLen\<close>, and a shift whose count is not below the width of the shifted
  type (or, for the signed \<^verbatim>\<open>1 << zeros\<close>, whose result does not fit \<^verbatim>\<open>int\<close>).
\<close>

datatype fault = OutOfBounds | ShiftRange

text \<open>
  A call \<^verbatim>\<open>int f(BinParser *obj, ..., T *val)\<close> either returns 0 having written \<^verbatim>\<open>*val\<close>
  (\<open>Done\<close>, with the state after the call), or returns a non-zero status with \<^verbatim>\<open>*val\<close>
  untouched (\<open>Failed\<close>, with the status and the state after the call), or runs into
  undefined behaviour.
\<close>

datatype 'a ret = Done BinParser 'a | Failed int BinParser | Undefined fault

text \<open>The buffer read \<^verbatim>\<open>obj->buf[i]\<close>, with the bound made explicit.\<close>

definition buf_at :: "BinParser \<Rightarrow> nat \<Rightarrow> u8 option" where
  "buf_at obj i =
     (if i < unat (bufLen obj) \<and> i < length (buf obj) then Some (buf obj ! i) else None)"

text \<open>
  The expression \<^verbatim>\<open>(buf[i] >> (7 - posBit)) & 0x1\<close>, which every bit reader repeats. The
  byte is promoted to \<^verbatim>\<open>int\<close>; the count \<^verbatim>\<open>7 - posBit\<close> is computed in \<^verbatim>\<open>unsigned int\<close> and
  wraps when \<^verbatim>\<open>posBit\<close> is above 7.
\<close>

definition read_bit :: "BinParser \<Rightarrow> nat \<Rightarrow> u32 \<Rightarrow> fault + u32" where
  "read_bit obj i pbit =
     (case buf_at obj i of
        None \<Rightarrow> Inl OutOfBounds
      | Some byte \<Rightarrow>
          if 32 \<le> unat (7 - pbit) then Inl ShiftRange
          else Inr (drop_bit (unat (7 - pbit)) (ucast byte) AND 1))"

text \<open>The macro \<^verbatim>\<open>BIN_PARSER_ADVANCE_POS(bytes, bits)\<close>.\<close>

definition BIN_PARSER_ADVANCE_POS :: "BinParser \<Rightarrow> u32 \<Rightarrow> u32 \<Rightarrow> BinParser" where
  "BIN_PARSER_ADVANCE_POS obj bytes bits =
     obj\<lparr>posByte := posByte obj + ucast bytes + ucast (drop_bit 3 (posBit obj + bits)),
         posBit := (posBit obj + bits) AND 7\<rparr>"

text \<open>
  \<^verbatim>\<open>BinParser_new\<close>: the object that a successful call creates (the allocation aside),
  all fields zero but the buffer and its length.
\<close>

definition BinParser_new :: "u8 list \<Rightarrow> u64 \<Rightarrow> BinParser" where
  "BinParser_new b len = \<lparr>buf = b, bufLen = len, posByte = 0, posBit = 0\<rparr>"

section \<open>The static helpers\<close>

text \<open>
  \<^verbatim>\<open>hasRest\<close>: \<^verbatim>\<open>nextByte\<close> and \<^verbatim>\<open>nextBit\<close> are \<^verbatim>\<open>unsigned int\<close>, so the 64-bit sum is cut to
  32 bits before it is compared with \<^verbatim>\<open>bufLen\<close>.
\<close>

definition hasRest :: "u64 \<Rightarrow> u32 \<Rightarrow> u32 \<Rightarrow> u32 \<Rightarrow> u64 \<Rightarrow> bool" where
  "hasRest pByte pBit bytes bits len =
     (let nextByte = (ucast (pByte + ucast bytes + ucast (drop_bit 3 (pBit + bits))) :: u32);
          nextBit = (pBit + bits) AND 7
      in if ucast nextByte < len then True
         else if ucast nextByte = len \<and> nextBit = 0 then True
         else False)"

definition isInBuf :: "u64 \<Rightarrow> u64 \<Rightarrow> bool" where
  "isInBuf pByte len = (if pByte < len then True else False)"

definition isByteAligned :: "BinParser \<Rightarrow> bool" where
  "isByteAligned obj = (posBit obj = 0)"

text \<open>
  \<^verbatim>\<open>castInt32\<close> and \<^verbatim>\<open>castInt64\<close>: the mask is computed in \<^verbatim>\<open>unsigned long long\<close>
  (\<^verbatim>\<open>0x1ULL << width\<close>), the sign bit is found by shifting \<^verbatim>\<open>val\<close> itself by \<^verbatim>\<open>width - 1\<close>.
\<close>

definition castInt32 :: "u32 \<Rightarrow> u32 \<Rightarrow> fault + u32" where
  "castInt32 val width =
     (if 64 \<le> unat width then Inl ShiftRange
      else let mask = (ucast (push_bit (unat width) (1 :: u64) - 1) :: u32)
           in if 32 \<le> unat (width - 1) then Inl ShiftRange
              else if drop_bit (unat (width - 1)) val AND 1 \<noteq> 0
                   then Inr (NOT mask OR (val AND mask))
                   else Inr (val AND mask))"

definition castInt64 :: "u64 \<Rightarrow> u32 \<Rightarrow> fault + u64" where
  "castInt64 val width =
     (if 64 \<le> unat width then Inl ShiftRange
      else let mask = push_bit (unat width) (1 :: u64) - 1
           in if 64 \<le> unat (width - 1) then Inl ShiftRange
              else if drop_bit (unat (width - 1)) val AND 1 \<noteq> 0
                   then Inr (NOT mask OR (val AND mask))
                   else Inr (val AND mask))"

section \<open>The readers\<close>

definition getBool :: "BinParser \<Rightarrow> bool ret" where
  "getBool obj =
     (if \<not> hasRest (posByte obj) (posBit obj) 0 1 (bufLen obj) then Failed 1 obj
      else case read_bit obj (unat (posByte obj)) (posBit obj) of
             Inl f \<Rightarrow> Undefined f
           | Inr b \<Rightarrow> Done (BIN_PARSER_ADVANCE_POS obj 0 1) (b \<noteq> 0))"

text \<open>
  The loop of \<^verbatim>\<open>getUInt32\<close>, which \<^verbatim>\<open>getUInt64\<close> repeats word for word, the accumulator
  \<^verbatim>\<open>uint32_t tmpVal\<close> included. The first argument counts the iterations left
  (\<^verbatim>\<open>bits - i\<close>); the position is the pair of \<^verbatim>\<open>unsigned int\<close> locals.
\<close>

fun read_loop :: "BinParser \<Rightarrow> nat \<Rightarrow> u32 \<Rightarrow> u32 \<Rightarrow> u32 \<Rightarrow> fault + u32" where
  "read_loop obj 0 pByte pBit tmpVal = Inr tmpVal"
| "read_loop obj (Suc n) pByte pBit tmpVal =
     (case read_bit obj (unat pByte) pBit of
        Inl f \<Rightarrow> Inl f
      | Inr b \<Rightarrow>
          read_loop obj n (pByte + drop_bit 3 (pBit + 1)) ((pBit + 1) AND 7)
            (push_bit 1 tmpVal OR b))"

definition getUInt32 :: "BinParser \<Rightarrow> u32 \<Rightarrow> u32 ret" where
  "getUInt32 obj bits =
     (if bits = 0 then Done obj 0
      else if \<not> hasRest (posByte obj) (posBit obj) 0 bits (bufLen obj) then Failed 1 obj
      else case read_loop obj (unat bits) (ucast (posByte obj)) (posBit obj) 0 of
             Inl f \<Rightarrow> Undefined f
           | Inr tmpVal \<Rightarrow> Done (BIN_PARSER_ADVANCE_POS obj 0 bits) tmpVal)"

definition getUInt64 :: "BinParser \<Rightarrow> u32 \<Rightarrow> u64 ret" where
  "getUInt64 obj bits =
     (if bits = 0 then Done obj 0
      else if \<not> hasRest (posByte obj) (posBit obj) 0 bits (bufLen obj) then Failed 1 obj
      else case read_loop obj (unat bits) (ucast (posByte obj)) (posBit obj) 0 of
             Inl f \<Rightarrow> Undefined f
           | Inr tmpVal \<Rightarrow> Done (BIN_PARSER_ADVANCE_POS obj 0 bits) (ucast tmpVal))"

definition getInt32 :: "BinParser \<Rightarrow> u32 \<Rightarrow> u32 ret" where
  "getInt32 obj bits =
     (case getUInt32 obj bits of
        Done obj' tmpVal \<Rightarrow>
          (case castInt32 tmpVal bits of
             Inl f \<Rightarrow> Undefined f
           | Inr v \<Rightarrow> Done obj' v)
      | Failed status obj' \<Rightarrow> Failed status obj'
      | Undefined f \<Rightarrow> Undefined f)"

definition getInt64 :: "BinParser \<Rightarrow> u32 \<Rightarrow> u64 ret" where
  "getInt64 obj bits =
     (case getUInt64 obj bits of
        Done obj' tmpVal \<Rightarrow>
          (case castInt64 tmpVal bits of
             Inl f \<Rightarrow> Undefined f
           | Inr v \<Rightarrow> Done obj' v)
      | Failed status obj' \<Rightarrow> Failed status obj'
      | Undefined f \<Rightarrow> Undefined f)"

text \<open>
  The copy loop of \<^verbatim>\<open>BinParser_getBytes\<close>; the first argument counts the iterations left,
  the index is the \<^verbatim>\<open>unsigned int\<close> local \<^verbatim>\<open>posByte\<close>, the result is what is written to
  \<^verbatim>\<open>val[0..]\<close>.
\<close>

fun copy_loop :: "BinParser \<Rightarrow> nat \<Rightarrow> u32 \<Rightarrow> fault + u8 list" where
  "copy_loop obj 0 pByte = Inr []"
| "copy_loop obj (Suc n) pByte =
     (case buf_at obj (unat pByte) of
        None \<Rightarrow> Inl OutOfBounds
      | Some byte \<Rightarrow>
          (case copy_loop obj n (pByte + 1) of
             Inl f \<Rightarrow> Inl f
           | Inr rest \<Rightarrow> Inr (byte # rest)))"

definition BinParser_getBytes :: "BinParser \<Rightarrow> u32 \<Rightarrow> u8 list ret" where
  "BinParser_getBytes obj bytes =
     (if \<not> isByteAligned obj then Failed 1 obj
      else if \<not> hasRest (posByte obj) (posBit obj) bytes 0 (bufLen obj) then Failed 1 obj
      else case copy_loop obj (unat bytes) (ucast (posByte obj)) of
             Inl f \<Rightarrow> Undefined f
           | Inr val \<Rightarrow> Done (BIN_PARSER_ADVANCE_POS obj bytes 0) val)"

section \<open>Exp-Golomb\<close>

text \<open>
  How a loop of \<^verbatim>\<open>getGlm\<close> is left: by a \<^verbatim>\<open>return\<close> inside its body, by its condition or a
  \<^verbatim>\<open>break\<close> (with the locals \<^verbatim>\<open>posByte\<close>, \<^verbatim>\<open>posBit\<close> and the loop's counter or
  accumulator), or by undefined behaviour.
\<close>

datatype loop_exit = Return int | Left u32 u32 u32 | Faulted fault

text \<open>
  The prefix loop \<^verbatim>\<open>while(posByte < obj->bufLen)\<close>. Its locals are \<^verbatim>\<open>unsigned int\<close>, so on a
  buffer of $2^{32}$ bytes or more that holds no 1 bit the position wraps and the loop never
  ends: the result is \<open>None\<close> then.
\<close>

partial_function (option) glm_prefix ::
  "BinParser \<Rightarrow> u32 \<Rightarrow> u32 \<Rightarrow> u32 \<Rightarrow> loop_exit option" where
  "glm_prefix obj pByte pBit zeros =
     (if ucast pByte < bufLen obj then
        (if bufLen obj \<le> ucast pByte then Some (Return 1)
         else case read_bit obj (unat pByte) pBit of
                Inl f \<Rightarrow> Some (Faulted f)
              | Inr b \<Rightarrow>
                  if b = 1 then Some (Left pByte pBit zeros)
                  else glm_prefix obj (pByte + drop_bit 3 (pBit + 1)) ((pBit + 1) AND 7)
                         (zeros + 1))
      else Some (Left pByte pBit zeros))"

text \<open>
  The suffix loop \<^verbatim>\<open>for(i = 0; (i < zeros) && (posByte < obj->bufLen); i++)\<close>; the first
  argument counts the iterations left (\<^verbatim>\<open>zeros - i\<close>).
\<close>

fun glm_suffix :: "BinParser \<Rightarrow> nat \<Rightarrow> u32 \<Rightarrow> u32 \<Rightarrow> u32 \<Rightarrow> loop_exit" where
  "glm_suffix obj 0 pByte pBit tmpVal = Left pByte pBit tmpVal"
| "glm_suffix obj (Suc n) pByte pBit tmpVal =
     (if ucast pByte < bufLen obj then
        (if bufLen obj \<le> ucast pByte then Return 1
         else case read_bit obj (unat pByte) pBit of
                Inl f \<Rightarrow> Faulted f
              | Inr b \<Rightarrow>
                  glm_suffix obj n (pByte + drop_bit 3 (pBit + 1)) ((pBit + 1) AND 7)
                    (push_bit 1 tmpVal OR b))
      else Left pByte pBit tmpVal)"

text \<open>
  The body of \<^verbatim>\<open>getGlm\<close> after the prefix loop: the check and the skip of the 1 bit, the
  suffix loop, \<^verbatim>\<open>tmpVal += ((1 << zeros) - 1)\<close> (a shift of the \<^verbatim>\<open>int\<close> 1) and the commit of
  the position.
\<close>

definition glm_rest :: "BinParser \<Rightarrow> loop_exit \<Rightarrow> u32 ret" where
  "glm_rest obj e =
     (case e of
        Return status \<Rightarrow> Failed status obj
      | Faulted f \<Rightarrow> Undefined f
      | Left pByte pBit zeros \<Rightarrow>
          if bufLen obj \<le> ucast pByte then Failed 1 obj
          else
            (case glm_suffix obj (unat zeros) (pByte + drop_bit 3 (pBit + 1))
                    ((pBit + 1) AND 7) 0 of
               Return status \<Rightarrow> Failed status obj
             | Faulted f \<Rightarrow> Undefined f
             | Left pByte' pBit' tmpVal \<Rightarrow>
                 if 31 \<le> unat zeros then Undefined ShiftRange
                 else Done (obj\<lparr>posBit := pBit', posByte := ucast pByte'\<rparr>)
                        (tmpVal + (push_bit (unat zeros) 1 - 1))))"

definition getGlm :: "BinParser \<Rightarrow> u32 ret option" where
  "getGlm obj = map_option (glm_rest obj) (glm_prefix obj (ucast (posByte obj)) (posBit obj) 0)"

text \<open>\<^verbatim>\<open>getSGlm\<close>; the \<^verbatim>\<open>int32_t\<close> result is kept as its 32 bits and read with \<open>sint\<close>.\<close>

definition getSGlm :: "BinParser \<Rightarrow> u32 ret option" where
  "getSGlm obj =
     (case getGlm obj of
        None \<Rightarrow> None
      | Some (Done obj' tmpVal) \<Rightarrow>
          Some (Done obj' (if tmpVal AND 1 \<noteq> 0 then drop_bit 1 tmpVal + 1
                           else - drop_bit 1 tmpVal))
      | Some (Failed status obj') \<Rightarrow> Some (Failed status obj')
      | Some (Undefined f) \<Rightarrow> Some (Undefined f))"

section \<open>Alignment and positioning\<close>

definition alignByte :: "BinParser \<Rightarrow> unit ret" where
  "alignByte obj =
     (if \<not> isInBuf (posByte obj) (bufLen obj) then Done obj ()
      else if posBit obj \<noteq> 0 then Done (obj\<lparr>posByte := posByte obj + 1, posBit := 0\<rparr>) ()
      else Done obj ())"

text \<open>\<^verbatim>\<open>alignBytes\<close>: \<^verbatim>\<open>rem\<close> and \<^verbatim>\<open>alignedByte\<close> are \<^verbatim>\<open>unsigned int\<close>.\<close>

definition alignBytes :: "BinParser \<Rightarrow> u32 \<Rightarrow> unit ret" where
  "alignBytes obj bytes =
     (if bytes = 0 then Failed 1 obj
      else if \<not> isInBuf (posByte obj) (bufLen obj) then Done obj ()
      else let rem = (ucast (posByte obj mod ucast bytes) :: u32)
           in if rem = 0 \<and> posBit obj = 0 then Done obj ()
              else let alignedByte = (ucast (posByte obj - ucast rem + ucast bytes) :: u32)
                   in if \<not> isInBuf (ucast alignedByte) (bufLen obj) then Failed 1 obj
                      else Done (obj\<lparr>posByte := ucast alignedByte, posBit := 0\<rparr>) ())"

text \<open>\<^verbatim>\<open>seek_\<close> (a name cannot end with an underscore here).\<close>

definition seek' :: "BinParser \<Rightarrow> u32 \<Rightarrow> u32 \<Rightarrow> unit ret" where
  "seek' obj pByte pBit =
     (if \<not> isInBuf (ucast pByte) (bufLen obj) then Failed 1 obj
      else Done (obj\<lparr>posByte := ucast pByte, posBit := pBit\<rparr>) ())"

definition BinParser_skip :: "BinParser \<Rightarrow> u32 \<Rightarrow> u32 \<Rightarrow> unit ret" where
  "BinParser_skip obj bytes bits =
     (let nextPosByte = (ucast (posByte obj + ucast bytes + ucast (drop_bit 3 (posBit obj + bits))) :: u32);
          nextPosBit = (posBit obj + bits) AND 7
      in seek' obj nextPosByte nextPosBit)"

text \<open>\<^verbatim>\<open>BinParser_reset\<close> takes the new length as \<^verbatim>\<open>unsigned int\<close>.\<close>

definition BinParser_reset :: "BinParser \<Rightarrow> u8 list \<Rightarrow> u32 \<Rightarrow> unit ret" where
  "BinParser_reset obj b len =
     Done (obj\<lparr>buf := b, bufLen := ucast len, posByte := 0, posBit := 0\<rparr>) ()"

section \<open>The public interface\<close>

text \<open>The remaining public functions only call their static counterparts.\<close>

definition BinParser_getBool :: "BinParser \<Rightarrow> bool ret" where
  "BinParser_getBool obj = getBool obj"

definition BinParser_getUInt32 :: "BinParser \<Rightarrow> u32 \<Rightarrow> u32 ret" where
  "BinParser_getUInt32 obj bits = getUInt32 obj bits"

definition BinParser_getUInt64 :: "BinParser \<Rightarrow> u32 \<Rightarrow> u64 ret" where
  "BinParser_getUInt64 obj bits = getUInt64 obj bits"

definition BinParser_getInt32 :: "BinParser \<Rightarrow> u32 \<Rightarrow> u32 ret" where
  "BinParser_getInt32 obj bits = getInt32 obj bits"

definition BinParser_getInt64 :: "BinParser \<Rightarrow> u32 \<Rightarrow> u64 ret" where
  "BinParser_getInt64 obj bits = getInt64 obj bits"

definition BinParser_getGlm :: "BinParser \<Rightarrow> u32 ret option" where
  "BinParser_getGlm obj = getGlm obj"

definition BinParser_getSGlm :: "BinParser \<Rightarrow> u32 ret option" where
  "BinParser_getSGlm obj = getSGlm obj"

definition BinParser_alignByte :: "BinParser \<Rightarrow> unit ret" where
  "BinParser_alignByte obj = alignByte obj"

definition BinParser_alignBytes :: "BinParser \<Rightarrow> u32 \<Rightarrow> unit ret" where
  "BinParser_alignBytes obj bytes = alignBytes obj bytes"

definition BinParser_seek :: "BinParser \<Rightarrow> u32 \<Rightarrow> u32 \<Rightarrow> unit ret" where
  "BinParser_seek obj pByte pBit = seek' obj pByte pBit"

text \<open>
  The state-changing public operations, and what a call of one does to the reader: the
  value read is dropped, \<open>None\<close> is a call that does not return.
\<close>

datatype operation =
    GetBool | GetUInt32 u32 | GetUInt64 u32 | GetInt32 u32 | GetInt64 u32
  | GetBytes u32 | GetGlm | GetSGlm
  | AlignByte | AlignBytes u32 | Seek u32 u32 | Skip u32 u32 | Reset "u8 list" u32

fun effect :: "'a ret \<Rightarrow> unit ret" where
  "effect (Done obj v) = Done obj ()"
| "effect (Failed status obj) = Failed status obj"
| "effect (Undefined f) = Undefined f"

fun run_op :: "operation \<Rightarrow> BinParser \<Rightarrow> unit ret option" where
  "run_op GetBool obj = Some (effect (BinParser_getBool obj))"
| "run_op (GetUInt32 bits) obj = Some (effect (BinParser_getUInt32 obj bits))"
| "run_op (GetUInt64 bits) obj = Some (effect (BinParser_getUInt64 obj bits))"
| "run_op (GetInt32 bits) obj = Some (effect (BinParser_getInt32 obj bits))"
| "run_op (GetInt64 bits) obj = Some (effect (BinParser_getInt64 obj bits))"
| "run_op (GetBytes bytes) obj = Some (effect (BinParser_getBytes obj bytes))"
| "run_op GetGlm obj = map_option effect (BinParser_getGlm obj)"
| "run_op GetSGlm obj = map_option effect (BinParser_getSGlm obj)"
| "run_op AlignByte obj = Some (BinParser_alignByte obj)"
| "run_op (AlignBytes bytes) obj = Some (BinParser_alignBytes obj bytes)"
| "run_op (Seek pByte pBit) obj = Some (BinParser_seek obj pByte pBit)"
| "run_op (Skip bytes bits) obj = Some (BinParser_skip obj bytes bits)"
| "run_op (Reset b len) obj = Some (BinParser_reset obj b len)"

section \<open>The vocabulary of the specification\<close>

text \<open>
  The cursor invariant of the specification: \<open>bytePos < length\<close>, or \<open>bytePos = length\<close>
  with \<open>bitPos = 0\<close>; and \<open>bitPos\<close> in \<open>[0, 8)\<close>.
\<close>

definition cursor_inv :: "BinParser \<Rightarrow> bool" where
  "cursor_inv obj \<longleftrightarrow>
     (posByte obj < bufLen obj \<or> (posByte obj = bufLen obj \<and> posBit obj = 0)) \<and> posBit obj < 8"

text \<open>The caller's side of the contract: \<^verbatim>\<open>buf\<close> points to at least \<^verbatim>\<open>bufLen\<close> bytes.\<close>

definition buffer_ok :: "BinParser \<Rightarrow> bool" where
  "buffer_ok obj \<longleftrightarrow> unat (bufLen obj) \<le> length (buf obj)"

text \<open>
  The cursor as one number, the index of the next bit; the bit of the buffer at such an
  index, most significant bit of each byte first; and that the bits from an index on are
  a given list.
\<close>

definition bit_pos :: "BinParser \<Rightarrow> nat" where
  "bit_pos obj = 8 * unat (posByte obj) + unat (posBit obj)"

definition bit_at :: "BinParser \<Rightarrow> nat \<Rightarrow> bool option" where
  "bit_at obj k = map_option (\<lambda>byte. bit byte (7 - k mod 8)) (buf_at obj (k div 8))"

fun bits_at :: "BinParser \<Rightarrow> nat \<Rightarrow> bool list \<Rightarrow> bool" where
  "bits_at obj k [] = True"
| "bits_at obj k (b # bs) = (bit_at obj k = Some b \<and> bits_at obj (k + 1) bs)"

text \<open>The reader with its cursor moved to the bit of index \<open>k\<close>.\<close>

definition cursor_at :: "BinParser \<Rightarrow> nat \<Rightarrow> BinParser" where
  "cursor_at obj k = obj\<lparr>posByte := of_nat (k div 8), posBit := of_nat (k mod 8)\<rparr>"

text \<open>The number a list of bits denotes, most significant bit first.\<close>

fun msb_value :: "nat \<Rightarrow> bool list \<Rightarrow> nat" where
  "msb_value acc [] = acc"
| "msb_value acc (b # bs) = msb_value (2 * acc + (if b then 1 else 0)) bs"

text \<open>
  An Exp-Golomb code as the specification describes it: \<open>zeros\<close> 0 bits, a terminating
  1 bit, then the \<open>zeros\<close> low bits of \<open>suffix\<close>, most significant first. It stands for
  the value \<open>suffix + 2 ^ zeros - 1\<close>.
\<close>

fun msb_bits :: "nat \<Rightarrow> nat \<Rightarrow> bool list" where
  "msb_bits 0 s = []"
| "msb_bits (Suc n) s = odd (s div 2 ^ n) # msb_bits n s"

definition glm_code :: "nat \<Rightarrow> nat \<Rightarrow> bool list" where
  "glm_code zeros suffix = replicate zeros False @ True # msb_bits zeros suffix"

text \<open>The status a call returned, if it returned.\<close>

definition status_of :: "'a ret \<Rightarrow> int option" where
  "status_of r =
     (case r of Done obj v \<Rightarrow> Some 0 | Failed status obj \<Rightarrow> Some status | Undefined f \<Rightarrow> None)"

text \<open>
  \<^verbatim>\<open>seek_\<close> stores the bit position it is given unchecked; this is the condition that it
  is a bit position.
\<close>

fun bit_arg_ok :: "operation \<Rightarrow> bool" where
  "bit_arg_ok (Seek pByte pBit) = (pBit < 8)"
| "bit_arg_ok other = True"

text \<open>
  The calls whose bit or byte count is below $2^{31}$, so that the sum \<^verbatim>\<open>hasRest\<close> computes
  for them on a buffer of at most $2^{31}$ bytes fits its \<^verbatim>\<open>unsigned int\<close>.
\<close>

fun small_count :: "operation \<Rightarrow> bool" where
  "small_count (GetUInt32 bits) = (unat bits < 2 ^ 31)"
| "small_count (GetUInt64 bits) = (unat bits < 2 ^ 31)"
| "small_count (GetInt32 bits) = (unat bits < 2 ^ 31)"
| "small_count (GetInt64 bits) = (unat bits < 2 ^ 31)"
| "small_count (GetBytes bytes) = (unat bytes < 2 ^ 31)"
| "small_count other = True"

text \<open>The operations that read the buffer.\<close>

fun is_read :: "operation \<Rightarrow> bool" where
  "is_read GetBool = True"
| "is_read (GetUInt32 bits) = True"
| "is_read (GetUInt64 bits) = True"
| "is_read (GetInt32 bits) = True"
| "is_read (GetInt64 bits) = True"
| "is_read (GetBytes bytes) = True"
| "is_read GetGlm = True"
| "is_read GetSGlm = True"
| "is_read other = False"

section \<open>Unfolding the loops at concrete counts\<close>

lemma replicate_step: "0 < n \<Longrightarrow> replicate n x = x # replicate (n - 1) x"
  by (cases n) simp_all

lemma read_loop_step:
  "0 < n \<Longrightarrow> read_loop obj n pByte pBit tmpVal =
     (case read_bit obj (unat pByte) pBit of
        Inl f \<Rightarrow> Inl f
      | Inr b \<Rightarrow>
          read_loop obj (n - 1) (pByte + drop_bit 3 (pBit + 1)) ((pBit + 1) AND 7)
            (push_bit 1 tmpVal OR b))"
  by (cases n) (simp_all split: sum.splits)

lemma copy_loop_step:
  "0 < n \<Longrightarrow> copy_loop obj n pByte =
     (case buf_at obj (unat pByte) of
        None \<Rightarrow> Inl OutOfBounds
      | Some byte \<Rightarrow>
          (case copy_loop obj (n - 1) (pByte + 1) of
             Inl f \<Rightarrow> Inl f
           | Inr rest \<Rightarrow> Inr (byte # rest)))"
  by (cases n) (simp_all split: option.splits)

lemma glm_suffix_step:
  "0 < n \<Longrightarrow> glm_suffix obj n pByte pBit tmpVal =
     (if ucast pByte < bufLen obj then
        (if bufLen obj \<le> ucast pByte then Return 1
         else case read_bit obj (unat pByte) pBit of
                Inl f \<Rightarrow> Faulted f
              | Inr b \<Rightarrow>
                  glm_suffix obj (n - 1) (pByte + drop_bit 3 (pBit + 1)) ((pBit + 1) AND 7)
                    (push_bit 1 tmpVal OR b))
      else Left pByte pBit tmpVal)"
  by (cases n) (simp_all split: sum.splits)

lemma msb_bits_step: "0 < n \<Longrightarrow> msb_bits n s = odd (s div 2 ^ (n - 1)) # msb_bits (n - 1) s"
  by (cases n) simp_all

section \<open>The 64-bit unsigned read\<close>

lemma read_loop_high_bit:
  "read_loop \<lparr>buf = [0x80, 0, 0, 0, 0], bufLen = 5, posByte = 0, posBit = 0\<rparr> 33 0 0 0 = Inr 0"
  by (simp add: read_loop_step read_bit_def buf_at_def)

text \<open>
  Claim C1 says that \<^verbatim>\<open>BinParser_getUInt64\<close>, for a width in \<open>[1, 64]\<close> that fits the
  buffer, returns the next \<open>bits\<close> bits read most significant bit first as an unsigned
  64-bit value. The accumulator of \<^verbatim>\<open>getUInt64\<close> is a \<^verbatim>\<open>uint32_t\<close>, so a bit that is shifted
  past position 31 is lost. On the five bytes \<open>80 00 00 00 00\<close> the cursor invariant and
  the capacity check for 33 bits hold, the next 33 bits are a 1 followed by 32 zeros,
  which denote $2^{32}$, and the read of 33 bits succeeds, advances the cursor by 33
  bits, and returns 0.
\<close>

theorem getUInt64_drops_bit_32:
  "cursor_inv \<lparr>buf = [0x80, 0, 0, 0, 0], bufLen = 5, posByte = 0, posBit = 0\<rparr>
   \<and> hasRest 0 0 0 33 5
   \<and> bits_at \<lparr>buf = [0x80, 0, 0, 0, 0], bufLen = 5, posByte = 0, posBit = 0\<rparr> 0
        (True # replicate 32 False)
   \<and> msb_value 0 (True # replicate 32 False) = 4294967296
   \<and> BinParser_getUInt64 \<lparr>buf = [0x80, 0, 0, 0, 0], bufLen = 5, posByte = 0, posBit = 0\<rparr> 33
        = Done \<lparr>buf = [0x80, 0, 0, 0, 0], bufLen = 5, posByte = 4, posBit = 1\<rparr> 0"
proof -
  have "bits_at \<lparr>buf = [0x80, 0, 0, 0, 0], bufLen = 5, posByte = 0, posBit = 0\<rparr> 0
        (True # replicate 32 False)"
    by (simp add: bit_at_def buf_at_def replicate_step)
  moreover have "msb_value 0 (True # replicate 32 False) = 4294967296"
    by (simp add: replicate_step)
  moreover have "hasRest 0 0 0 33 5"
    by (simp add: hasRest_def)
  moreover have
    "BinParser_getUInt64 \<lparr>buf = [0x80, 0, 0, 0, 0], bufLen = 5, posByte = 0, posBit = 0\<rparr> 33
       = Done \<lparr>buf = [0x80, 0, 0, 0, 0], bufLen = 5, posByte = 4, posBit = 1\<rparr> 0"
    by (simp add: BinParser_getUInt64_def getUInt64_def hasRest_def read_loop_high_bit
        BIN_PARSER_ADVANCE_POS_def)
  ultimately show ?thesis
    by (simp add: cursor_inv_def)
qed

section \<open>The byte-run read on a cursor that is not byte-aligned\<close>

text \<open>
  Claim C4, as amended: on every reader state with \<open>bitPos \<noteq> 0\<close> and for every byte
  count, \<^verbatim>\<open>BinParser_getBytes\<close> fails with status 1 and leaves the state as it was; and
  status 1 is also what it returns when the cursor is byte-aligned and the capacity check
  for the requested bytes fails.
\<close>

theorem getBytes_unaligned_status:
  "(posBit obj \<noteq> 0 \<longrightarrow> BinParser_getBytes obj bytes = Failed 1 obj)
   \<and> (posBit obj = 0 \<and> \<not> hasRest (posByte obj) (posBit obj) bytes 0 (bufLen obj)
        \<longrightarrow> BinParser_getBytes obj bytes = Failed 1 obj)"
  by (auto simp add: BinParser_getBytes_def isByteAligned_def)

theorem getBytes_unaligned_status_witness:
  "posBit \<lparr>buf = [0xAA, 0xBB], bufLen = 2, posByte = 0, posBit = 3\<rparr> \<noteq> 0
   \<and> BinParser_getBytes \<lparr>buf = [0xAA, 0xBB], bufLen = 2, posByte = 0, posBit = 3\<rparr> 1
       = Failed 1 \<lparr>buf = [0xAA, 0xBB], bufLen = 2, posByte = 0, posBit = 3\<rparr>
   \<and> posBit \<lparr>buf = [0xAA, 0xBB], bufLen = 2, posByte = 1, posBit = 0\<rparr> = 0
   \<and> \<not> hasRest 1 0 2 0 2
   \<and> BinParser_getBytes \<lparr>buf = [0xAA, 0xBB], bufLen = 2, posByte = 1, posBit = 0\<rparr> 2
       = Failed 1 \<lparr>buf = [0xAA, 0xBB], bufLen = 2, posByte = 1, posBit = 0\<rparr>"
proof -
  have a: "posBit \<lparr>buf = [0xAA, 0xBB], bufLen = 2, posByte = 0, posBit = 3\<rparr> \<noteq> 0"
    by simp
  have b: "\<not> hasRest 1 0 2 0 2"
    by (simp add: hasRest_def)
  show ?thesis
    using a b
      getBytes_unaligned_status
        [of "\<lparr>buf = [0xAA, 0xBB], bufLen = 2, posByte = 0, posBit = 3\<rparr>" 1]
      getBytes_unaligned_status
        [of "\<lparr>buf = [0xAA, 0xBB], bufLen = 2, posByte = 1, posBit = 0\<rparr>" 2]
    by simp
qed

text \<open>
  Claim C4 as it is written also says that the failure on a cursor that is not
  byte-aligned is a result distinct from the out-of-buffer failure. Both calls return
  the status 1: on the two bytes \<open>AA BB\<close>, the read of one byte at bit 3 of byte 0 and
  the read of two bytes at byte 1.
\<close>

theorem getBytes_same_status_counterexample:
  "status_of (BinParser_getBytes \<lparr>buf = [0xAA, 0xBB], bufLen = 2, posByte = 0, posBit = 3\<rparr> 1)
     = Some 1
   \<and> status_of (BinParser_getBytes \<lparr>buf = [0xAA, 0xBB], bufLen = 2, posByte = 1, posBit = 0\<rparr> 2)
     = Some 1"
  by (simp add: status_of_def BinParser_getBytes_def isByteAligned_def hasRest_def)

section \<open>Bit positions\<close>

lemma mod8_cases:
  "(k::nat) mod 8 = 0 \<or> k mod 8 = 1 \<or> k mod 8 = 2 \<or> k mod 8 = 3 \<or> k mod 8 = 4 \<or> k mod 8 = 5
     \<or> k mod 8 = 6 \<or> k mod 8 = 7"
  by presburger

lemma next_bit_canon: "((of_nat (k mod 8) :: u32) + 1) AND 7 = of_nat ((k + 1) mod 8)"
proof -
  have "(k + 1) mod 8 = (if k mod 8 = 7 then 0 else k mod 8 + 1)"
    by presburger
  then show ?thesis
    using mod8_cases [of k] by auto
qed

lemma next_byte_canon:
  "(of_nat (k div 8) :: u32) + drop_bit 3 (of_nat (k mod 8) + 1) = of_nat ((k + 1) div 8)"
proof -
  have "(k + 1) div 8 = (if k mod 8 = 7 then k div 8 + 1 else k div 8)"
    by presburger
  then show ?thesis
    using mod8_cases [of k] by auto
qed

lemma bit_of_byte: "n < 8 \<Longrightarrow> drop_bit n (ucast (byte :: u8) :: u32) AND 1 = of_bool (bit byte n)"
  by (rule bit_word_eqI) (auto simp add: bit_simps)

lemma shift_count_canon: "unat (7 - (of_nat (k mod 8) :: u32)) = 7 - k mod 8"
  using mod8_cases [of k] by auto

lemma read_bit_canon:
  assumes "k div 8 < 2 ^ 32"
  shows "read_bit obj (unat (of_nat (k div 8) :: u32)) (of_nat (k mod 8)) =
           (case bit_at obj k of None \<Rightarrow> Inl OutOfBounds | Some b \<Rightarrow> Inr (of_bool b))"
proof -
  have "unat (of_nat (k div 8) :: u32) = k div 8"
    using assms by (simp add: unat_of_nat)
  moreover have "\<not> 32 \<le> 7 - k mod 8"
    by arith
  ultimately show ?thesis
    by (simp add: read_bit_def bit_at_def shift_count_canon bit_of_byte split: option.splits)
qed

lemma unat_canon_byte: "k div 8 < 2 ^ 32 \<Longrightarrow> unat (of_nat (k div 8) :: u32) = k div 8"
  by (simp add: unat_of_nat)

lemma unat_ucast_up: "unat (ucast (w :: u32) :: u64) = unat w"
proof -
  have "unat w < 2 ^ LENGTH(32)"
    by (rule unsigned_less)
  then have "unat w < 2 ^ 64"
    by simp
  then show ?thesis
    by (simp add: unsigned_ucast_eq take_bit_nat_eq_self)
qed

lemma guard_canon:
  assumes "k div 8 < 2 ^ 32"
  shows "((ucast (of_nat (k div 8) :: u32) :: u64) < len) = (k div 8 < unat len)"
    and "(len \<le> (ucast (of_nat (k div 8) :: u32) :: u64)) = (unat len \<le> k div 8)"
proof -
  have "unat (ucast (of_nat (k div 8) :: u32) :: u64) = k div 8"
    using assms by (simp add: unat_ucast_up unat_of_nat)
  then show "((ucast (of_nat (k div 8) :: u32) :: u64) < len) = (k div 8 < unat len)"
    and "(len \<le> (ucast (of_nat (k div 8) :: u32) :: u64)) = (unat len \<le> k div 8)"
    by (simp_all add: word_less_nat_alt word_le_nat_alt)
qed

lemma bit_at_in_buffer: "bit_at obj k = Some b \<Longrightarrow> k div 8 < unat (bufLen obj)"
  by (simp add: bit_at_def buf_at_def split: if_splits)

lemma bit_at_defined:
  "buffer_ok obj \<Longrightarrow> k div 8 < unat (bufLen obj) \<Longrightarrow> \<exists>b. bit_at obj k = Some b"
  by (simp add: bit_at_def buf_at_def buffer_ok_def)

lemma shift_in_bit: "push_bit 1 (of_nat a :: u32) OR of_bool b = of_nat (2 * a + (if b then 1 else 0))"
  by (cases b) (simp_all add: or_one_eq push_bit_eq_mult)

lemma read_bit_is_bit: "read_bit obj i pb = Inr b \<Longrightarrow> bit b j \<Longrightarrow> j = 0"
  by (auto simp add: read_bit_def bit_simps split: option.splits if_splits)

lemma shifted_bit:
  "bit (push_bit 1 (acc :: u32) OR b) i \<longleftrightarrow> (0 < i \<and> i < 32 \<and> bit acc (i - 1)) \<or> bit b i"
  unfolding bit_or_iff bit_push_bit_iff by (auto simp add: bit_simps)

lemma read_loop_width:
  "read_loop obj n pB pb acc = Inr v \<Longrightarrow> (\<And>j. m \<le> j \<Longrightarrow> \<not> bit acc j) \<Longrightarrow> m + n \<le> j \<Longrightarrow> \<not> bit v j"
proof (induction n arbitrary: pB pb acc m)
  case 0
  then show ?case by simp
next
  case (Suc n)
  from Suc.prems(1) obtain b where b: "read_bit obj (unat pB) pb = Inr b"
    and rest: "read_loop obj n (pB + drop_bit 3 (pb + 1)) ((pb + 1) AND 7) (push_bit 1 acc OR b) = Inr v"
    by (auto split: sum.splits)
  have "\<not> bit (push_bit 1 acc OR b) i" if "Suc m \<le> i" for i
  proof
    assume "bit (push_bit 1 acc OR b) i"
    then have "(0 < i \<and> i < 32 \<and> bit acc (i - 1)) \<or> bit b i"
      by (simp only: shifted_bit)
    with that Suc.prems(2) [of "i - 1"] read_bit_is_bit [OF b, of i] show False
      by auto
  qed
  from Suc.IH [OF rest this, of "Suc m"] Suc.prems(3) show ?case
    by simp
qed

lemma read_loop_ok:
  "buffer_ok obj \<Longrightarrow> 2 ^ 32 \<le> unat (bufLen obj) \<or> k + n \<le> 8 * unat (bufLen obj)
   \<Longrightarrow> \<exists>v. read_loop obj n (of_nat (k div 8)) (of_nat (k mod 8)) acc = Inr v"
proof (induction n arbitrary: k acc)
  case 0
  then show ?case by simp
next
  case (Suc n)
  have "unat (of_nat (k div 8) :: u32) < unat (bufLen obj)"
  proof (cases "2 ^ 32 \<le> unat (bufLen obj)")
    case True
    have "unat (of_nat (k div 8) :: u32) < 2 ^ LENGTH(32)"
      by (rule unsigned_less)
    with True show ?thesis by simp
  next
    case False
    with Suc.prems(2) have "k div 8 < unat (bufLen obj)"
      by simp
    moreover have "unat (of_nat (k div 8) :: u32) \<le> k div 8"
      by (simp add: unat_of_nat)
    ultimately show ?thesis by simp
  qed
  with Suc.prems(1) obtain byte where "buf_at obj (unat (of_nat (k div 8) :: u32)) = Some byte"
    by (auto simp add: buf_at_def buffer_ok_def)
  moreover have "\<not> 32 \<le> 7 - k mod 8"
    by arith
  ultimately obtain b where b: "read_bit obj (unat (of_nat (k div 8) :: u32)) (of_nat (k mod 8)) = Inr b"
    by (simp add: read_bit_def shift_count_canon)
  from Suc.prems(2) have "2 ^ 32 \<le> unat (bufLen obj) \<or> (k + 1) + n \<le> 8 * unat (bufLen obj)"
    by auto
  from Suc.IH [OF Suc.prems(1) this] b show ?case
    by (simp add: next_bit_canon next_byte_canon)
qed

section \<open>The cursor invariant\<close>

lemma cursor_inv_unat:
  "cursor_inv obj \<longleftrightarrow>
     (unat (posByte obj) < unat (bufLen obj)
        \<or> (unat (posByte obj) = unat (bufLen obj) \<and> unat (posBit obj) = 0))
     \<and> unat (posBit obj) < 8"
  by (simp add: cursor_inv_def word_less_nat_alt word_unat_eq_iff)

lemma unat_and_7: "unat ((w :: u32) AND 7) = unat w mod 8"
proof -
  have "w AND 7 = w mod 8"
    using take_bit_eq_mask [of 3 w] by (simp add: take_bit_eq_mod mask_eq_exp_minus_1)
  then show ?thesis
    by (simp add: unat_mod)
qed

lemma unat_carry: "unat (ucast (drop_bit 3 (w :: u32)) :: u64) = unat w div 8"
  by (simp add: unat_ucast_up drop_bit_eq_div unat_div)

lemma canon_of_cursor:
  assumes "unat (posBit obj) < 8"
  shows "(ucast (posByte obj) :: u32) = of_nat (bit_pos obj div 8)"
    and "posBit obj = of_nat (bit_pos obj mod 8)"
    and "bit_pos obj div 8 = unat (posByte obj)"
proof -
  from assms show d: "bit_pos obj div 8 = unat (posByte obj)"
    by (simp add: bit_pos_def)
  from assms have m: "bit_pos obj mod 8 = unat (posBit obj)"
    by (simp add: bit_pos_def)
  show "(ucast (posByte obj) :: u32) = of_nat (bit_pos obj div 8)"
    by (simp add: d of_nat_unat)
  show "posBit obj = of_nat (bit_pos obj mod 8)"
    by (simp add: m)
qed

lemma at_or_before_end:
  "8 * (p + q) + m \<le> 8 * (l :: nat) \<Longrightarrow> p + q < l \<or> (p + q = l \<and> m = 0)"
  by arith

lemma advance_inv:
  assumes "8 * (unat (posByte obj) + unat bytes) + unat (posBit obj + bits) \<le> 8 * unat (bufLen obj)"
  shows "cursor_inv (BIN_PARSER_ADVANCE_POS obj bytes bits)"
proof -
  let ?X = "unat (posBit obj + bits)"
  have L: "unat (bufLen obj) < 2 ^ LENGTH(64)"
    by (rule unsigned_less)
  have a: "unat (posByte obj) + unat (ucast bytes :: u64) < 2 ^ LENGTH(64)"
    using assms L by (simp add: unat_ucast_up)
  then have b: "unat (posByte obj + ucast bytes) = unat (posByte obj) + unat bytes"
    by (simp only: unat_add_lem [THEN iffD1] unat_ucast_up)
  have "unat (posByte obj + ucast bytes) + unat (ucast (drop_bit 3 (posBit obj + bits)) :: u64) < 2 ^ LENGTH(64)"
    using assms L by (simp add: b unat_carry)
  then have c: "unat (posByte obj + ucast bytes + ucast (drop_bit 3 (posBit obj + bits)))
      = unat (posByte obj) + unat bytes + ?X div 8"
    by (simp only: unat_add_lem [THEN iffD1] b unat_carry)
  have d: "unat ((posBit obj + bits) AND 7) = ?X mod 8"
    by (rule unat_and_7)
  have sel: "posByte (BIN_PARSER_ADVANCE_POS obj bytes bits)
        = posByte obj + ucast bytes + ucast (drop_bit 3 (posBit obj + bits))"
    "posBit (BIN_PARSER_ADVANCE_POS obj bytes bits) = (posBit obj + bits) AND 7"
    "bufLen (BIN_PARSER_ADVANCE_POS obj bytes bits) = bufLen obj"
    by (simp_all add: BIN_PARSER_ADVANCE_POS_def)
  have "8 * (unat (posByte obj) + unat bytes + ?X div 8) + ?X mod 8
      = 8 * (unat (posByte obj) + unat bytes) + ?X"
    by simp
  with assms have
    "unat (posByte obj) + unat bytes + ?X div 8 < unat (bufLen obj)
     \<or> (unat (posByte obj) + unat bytes + ?X div 8 = unat (bufLen obj) \<and> ?X mod 8 = 0)"
    by (intro at_or_before_end) simp
  moreover have "?X mod 8 < 8"
    by simp
  ultimately show ?thesis
    unfolding cursor_inv_unat sel c d by blast
qed

lemma unat_sum_le: "unat ((a :: u32) + b) \<le> unat a + unat b"
  by (simp add: unat_word_ariths)

lemma at_end_cases: "k \<le> 8 * (l :: nat) \<Longrightarrow> k div 8 < l \<or> (k div 8 = l \<and> k mod 8 = 0)"
  by arith

lemma unat_canon_bit: "unat (of_nat (k mod 8) :: u32) = k mod 8"
proof -
  have "k mod 8 < 2 ^ 32"
    by (rule less_trans [of _ 8]) simp_all
  then show ?thesis
    by (simp add: unat_of_nat)
qed

lemma cursor_inv_canon:
  assumes "k \<le> 8 * unat (bufLen obj)" and "unat (bufLen obj) < 2 ^ 32"
  shows "cursor_inv (obj\<lparr>posBit := of_nat (k mod 8), posByte := ucast (of_nat (k div 8) :: u32)\<rparr>)"
proof -
  from assms have "k div 8 < 2 ^ 32"
    by simp
  then have "unat (ucast (of_nat (k div 8) :: u32) :: u64) = k div 8"
    by (simp add: unat_ucast_up unat_of_nat)
  with at_end_cases [OF assms(1)] show ?thesis
    by (simp add: cursor_inv_unat unat_canon_bit)
qed

lemma glm_prefix_exit:
  assumes "k \<le> 8 * unat (bufLen obj)" and len: "unat (bufLen obj) < 2 ^ 32"
  shows "\<exists>e. glm_prefix obj (of_nat (k div 8)) (of_nat (k mod 8)) z = Some e \<and>
           (case e of
              Left pB' pb' z' \<Rightarrow>
                \<exists>k'. pB' = of_nat (k' div 8) \<and> pb' = of_nat (k' mod 8)
                     \<and> k' \<le> 8 * unat (bufLen obj)
            | Return status \<Rightarrow> True
            | Faulted f \<Rightarrow> True)"
  using assms(1)
proof (induction "8 * unat (bufLen obj) - k" arbitrary: k z)
  case 0
  with len have small: "k div 8 < 2 ^ 32" and "\<not> k div 8 < unat (bufLen obj)"
    by simp_all
  with "0.prems" show ?case
    by (subst glm_prefix.simps) (auto simp add: guard_canon [OF small])
next
  case (Suc d)
  from Suc.hyps(2) have inb: "k div 8 < unat (bufLen obj)"
    by simp
  with len have small: "k div 8 < 2 ^ 32"
    by simp
  from inb have next_k: "k + 1 \<le> 8 * unat (bufLen obj)"
    by simp
  from Suc.hyps(2) have "d = 8 * unat (bufLen obj) - (k + 1)"
    by simp
  note IH = Suc.hyps(1) [OF this next_k, of "z + 1"]
  show ?case
  proof (cases "read_bit obj (unat (of_nat (k div 8) :: u32)) (of_nat (k mod 8))")
    case (Inl fl)
    with inb show ?thesis
      by (subst glm_prefix.simps) (simp add: guard_canon [OF small])
  next
    case (Inr b)
    with inb IH Suc.prems show ?thesis
      by (subst glm_prefix.simps)
        (auto simp add: guard_canon [OF small] next_bit_canon next_byte_canon)
  qed
qed

lemma glm_suffix_exit:
  "glm_suffix obj n (of_nat (k div 8)) (of_nat (k mod 8)) acc = Left pB' pb' v
   \<Longrightarrow> k \<le> 8 * unat (bufLen obj) \<Longrightarrow> unat (bufLen obj) < 2 ^ 32
   \<Longrightarrow> \<exists>k'. pB' = of_nat (k' div 8) \<and> pb' = of_nat (k' mod 8) \<and> k' \<le> 8 * unat (bufLen obj)"
proof (induction n arbitrary: k acc)
  case 0
  then show ?case by auto
next
  case (Suc n)
  from Suc.prems(2,3) have small: "k div 8 < 2 ^ 32"
    by simp
  show ?case
  proof (cases "k div 8 < unat (bufLen obj)")
    case False
    with Suc.prems show ?thesis
      by (auto simp add: guard_canon [OF small])
  next
    case True
    then have next_k: "k + 1 \<le> 8 * unat (bufLen obj)"
      by simp
    from Suc.prems(1) True obtain b where
      "glm_suffix obj n (of_nat ((k + 1) div 8)) (of_nat ((k + 1) mod 8)) (push_bit 1 acc OR b)
         = Left pB' pb' v"
      by (auto simp add: guard_canon [OF small] next_bit_canon next_byte_canon split: sum.splits)
    from Suc.IH [OF this next_k Suc.prems(3)] show ?thesis .
  qed
qed

lemma glm_rest_inv:
  assumes "glm_rest obj (Left (of_nat (k div 8)) (of_nat (k mod 8)) z) = Done obj' v"
    and k: "k \<le> 8 * unat (bufLen obj)" and len: "unat (bufLen obj) < 2 ^ 32"
  shows "cursor_inv obj'"
proof -
  from k len have small: "k div 8 < 2 ^ 32"
    by simp
  from assms(1) have inb: "k div 8 < unat (bufLen obj)"
    by (auto simp add: glm_rest_def guard_canon [OF small] split: if_splits)
  with assms(1) obtain pB' pb' tmpVal where
    suffix: "glm_suffix obj (unat z) (of_nat ((k + 1) div 8)) (of_nat ((k + 1) mod 8)) 0
               = Left pB' pb' tmpVal"
    and obj': "obj' = obj\<lparr>posBit := pb', posByte := ucast pB'\<rparr>"
    by (auto simp add: glm_rest_def guard_canon [OF small] next_bit_canon next_byte_canon
        split: if_splits loop_exit.splits)
  from inb have "k + 1 \<le> 8 * unat (bufLen obj)"
    by simp
  from glm_suffix_exit [OF suffix this len] obtain k' where
    "pB' = of_nat (k' div 8)" "pb' = of_nat (k' mod 8)" "k' \<le> 8 * unat (bufLen obj)"
    by blast
  with len show ?thesis
    unfolding obj' by (simp add: cursor_inv_canon)
qed

lemma getGlm_inv:
  assumes inv: "cursor_inv obj" and len: "unat (bufLen obj) < 2 ^ 32"
    and ok: "getGlm obj = Some (Done obj' v)"
  shows "cursor_inv obj'"
proof -
  from inv have pb: "unat (posBit obj) < 8"
    and k: "bit_pos obj \<le> 8 * unat (bufLen obj)"
    by (auto simp add: cursor_inv_unat bit_pos_def)
  from ok obtain e where
    prefix: "glm_prefix obj (of_nat (bit_pos obj div 8)) (of_nat (bit_pos obj mod 8)) 0 = Some e"
    and rest: "glm_rest obj e = Done obj' v"
    by (auto simp add: getGlm_def canon_of_cursor(1,2) [OF pb, symmetric])
  from rest obtain pB' pb' z' where e: "e = Left pB' pb' z'"
    by (cases e) (simp_all add: glm_rest_def)
  from glm_prefix_exit [OF k len, of 0] prefix e obtain k' where
    "pB' = of_nat (k' div 8)" "pb' = of_nat (k' mod 8)" "k' \<le> 8 * unat (bufLen obj)"
    by auto
  with rest e len show ?thesis
    by (auto intro: glm_rest_inv)
qed

lemma getSGlm_inv:
  "cursor_inv obj \<Longrightarrow> unat (bufLen obj) < 2 ^ 32 \<Longrightarrow> getSGlm obj = Some (Done obj' v)
   \<Longrightarrow> cursor_inv obj'"
  by (auto simp add: getSGlm_def getGlm_inv split: option.splits ret.splits)

lemma alignByte_inv:
  assumes "cursor_inv obj" and "alignByte obj = Done obj' u"
  shows "cursor_inv obj'"
proof (cases "posByte obj < bufLen obj \<and> posBit obj \<noteq> 0")
  case False
  with assms show ?thesis
    by (auto simp add: alignByte_def isInBuf_def split: if_splits)
next
  case True
  then have lt: "unat (posByte obj) < unat (bufLen obj)"
    by (simp add: word_less_nat_alt)
  have "unat (bufLen obj) < 2 ^ LENGTH(64)"
    by (rule unsigned_less)
  with lt have "unat (posByte obj + 1) = unat (posByte obj) + 1"
    by (simp add: unat_word_ariths)
  with lt True assms(2) show ?thesis
    by (auto simp add: alignByte_def isInBuf_def cursor_inv_unat)
qed

lemma alignBytes_inv:
  "cursor_inv obj \<Longrightarrow> alignBytes obj bytes = Done obj' u \<Longrightarrow> cursor_inv obj'"
  by (auto simp add: alignBytes_def isInBuf_def cursor_inv_def Let_def split: if_splits)

lemma seek_inv: "pBit < 8 \<Longrightarrow> seek' obj pByte pBit = Done obj' u \<Longrightarrow> cursor_inv obj'"
  by (auto simp add: seek'_def isInBuf_def cursor_inv_def split: if_splits)

lemma and_7_less: "(w :: u32) AND 7 < 8"
  by (simp add: word_less_nat_alt unat_and_7)

lemma skip_inv: "BinParser_skip obj bytes bits = Done obj' u \<Longrightarrow> cursor_inv obj'"
  unfolding BinParser_skip_def Let_def by (rule seek_inv [OF and_7_less])

lemma reset_inv: "BinParser_reset obj b len = Done obj' u \<Longrightarrow> cursor_inv obj'"
  by (auto simp add: BinParser_reset_def cursor_inv_def word_gt_0)

lemma getBool_failed: "getBool obj = Failed status obj' \<Longrightarrow> obj' = obj"
  by (auto simp add: getBool_def split: if_splits sum.splits)

lemma getUInt32_failed: "getUInt32 obj bits = Failed status obj' \<Longrightarrow> obj' = obj"
  by (auto simp add: getUInt32_def split: if_splits sum.splits)

lemma getUInt64_failed: "getUInt64 obj bits = Failed status obj' \<Longrightarrow> obj' = obj"
  by (auto simp add: getUInt64_def split: if_splits sum.splits)

lemma getInt32_failed: "getInt32 obj bits = Failed status obj' \<Longrightarrow> obj' = obj"
  by (auto simp add: getInt32_def getUInt32_failed split: ret.splits sum.splits)

lemma getInt64_failed: "getInt64 obj bits = Failed status obj' \<Longrightarrow> obj' = obj"
  by (auto simp add: getInt64_def getUInt64_failed split: ret.splits sum.splits)

lemma getBytes_failed: "BinParser_getBytes obj bytes = Failed status obj' \<Longrightarrow> obj' = obj"
  by (auto simp add: BinParser_getBytes_def split: if_splits sum.splits)

lemma glm_rest_failed: "glm_rest obj e = Failed status obj' \<Longrightarrow> obj' = obj"
  by (auto simp add: glm_rest_def split: loop_exit.splits if_splits)

lemma getGlm_failed: "getGlm obj = Some (Failed status obj') \<Longrightarrow> obj' = obj"
  by (auto simp add: getGlm_def glm_rest_failed)

lemma getSGlm_failed: "getSGlm obj = Some (Failed status obj') \<Longrightarrow> obj' = obj"
  by (auto simp add: getSGlm_def getGlm_failed split: option.splits ret.splits)

lemma alignByte_failed: "alignByte obj = Failed status obj' \<Longrightarrow> obj' = obj"
  by (auto simp add: alignByte_def split: if_splits)

lemma alignBytes_failed: "alignBytes obj bytes = Failed status obj' \<Longrightarrow> obj' = obj"
  by (auto simp add: alignBytes_def Let_def split: if_splits)

lemma seek_failed: "seek' obj pByte pBit = Failed status obj' \<Longrightarrow> obj' = obj"
  by (auto simp add: seek'_def split: if_splits)

lemma skip_failed: "BinParser_skip obj bytes bits = Failed status obj' \<Longrightarrow> obj' = obj"
  unfolding BinParser_skip_def Let_def by (rule seek_failed)

lemma effect_Done: "effect r = Done obj' u \<Longrightarrow> \<exists>v. r = Done obj' v"
  by (cases r) simp_all

lemma effect_Failed: "effect r = Failed status obj' \<Longrightarrow> r = Failed status obj'"
  by (cases r) simp_all

section \<open>Errors leave the state unchanged\<close>

text \<open>
  Claim C3: for every public operation and every starting state, if the operation
  returns an error then the reader state (buffer, length, byte and bit position) is the
  state before the call. This covers the unsigned Exp-Golomb read whose prefix scan
  reaches the end of the buffer without a 1 bit: \<^verbatim>\<open>getGlm\<close> scans with local copies of the
  position and stores them only on success.
\<close>

theorem failure_keeps_state:
  assumes "run_op opn obj = Some (Failed status obj')"
  shows "obj' = obj"
proof (cases opn)
  case GetBool
  with assms show ?thesis
    by (auto simp add: BinParser_getBool_def dest!: effect_Failed getBool_failed)
next
  case (GetUInt32 bits)
  with assms show ?thesis
    by (auto simp add: BinParser_getUInt32_def dest!: effect_Failed getUInt32_failed)
next
  case (GetUInt64 bits)
  with assms show ?thesis
    by (auto simp add: BinParser_getUInt64_def dest!: effect_Failed getUInt64_failed)
next
  case (GetInt32 bits)
  with assms show ?thesis
    by (auto simp add: BinParser_getInt32_def dest!: effect_Failed getInt32_failed)
next
  case (GetInt64 bits)
  with assms show ?thesis
    by (auto simp add: BinParser_getInt64_def dest!: effect_Failed getInt64_failed)
next
  case (GetBytes bytes)
  with assms show ?thesis
    by (auto dest!: effect_Failed getBytes_failed)
next
  case GetGlm
  with assms show ?thesis
    by (auto simp add: BinParser_getGlm_def dest!: effect_Failed getGlm_failed)
next
  case GetSGlm
  with assms show ?thesis
    by (auto simp add: BinParser_getSGlm_def dest!: effect_Failed getSGlm_failed)
next
  case AlignByte
  with assms show ?thesis
    by (auto simp add: BinParser_alignByte_def dest!: alignByte_failed)
next
  case (AlignBytes bytes)
  with assms show ?thesis
    by (auto simp add: BinParser_alignBytes_def dest!: alignBytes_failed)
next
  case (Seek pByte pBit)
  with assms show ?thesis
    by (auto simp add: BinParser_seek_def dest!: seek_failed)
next
  case (Skip bytes bits)
  with assms show ?thesis
    by (auto dest!: skip_failed)
next
  case (Reset b len)
  with assms show ?thesis
    by (auto simp add: BinParser_reset_def)
qed

text \<open>
  Two calls that return an error: the Exp-Golomb read on a byte of zeros, whose prefix
  scan runs off the end, and a read of 9 bits from a buffer of one byte.
\<close>

theorem failure_keeps_state_witness:
  "run_op GetGlm \<lparr>buf = [0], bufLen = 1, posByte = 0, posBit = 0\<rparr>
     = Some (Failed 1 \<lparr>buf = [0], bufLen = 1, posByte = 0, posBit = 0\<rparr>)
   \<and> run_op (GetUInt32 9) \<lparr>buf = [0xB4], bufLen = 1, posByte = 0, posBit = 3\<rparr>
     = Some (Failed 1 \<lparr>buf = [0xB4], bufLen = 1, posByte = 0, posBit = 3\<rparr>)"
proof -
  let ?st = "\<lparr>buf = [0], bufLen = 1, posByte = 0, posBit = 0\<rparr>"
  let ?st' = "\<lparr>buf = [0xB4], bufLen = 1, posByte = 0, posBit = 3\<rparr>"
  have "glm_prefix ?st 0 0 0 = Some (Left 1 0 8)"
    by (simp add: glm_prefix.simps read_bit_def buf_at_def)
  then obtain obj' where glm: "run_op GetGlm ?st = Some (Failed 1 obj')"
    by (simp add: BinParser_getGlm_def getGlm_def glm_rest_def)
  obtain obj'' where rd: "run_op (GetUInt32 9) ?st' = Some (Failed 1 obj'')"
    by (simp add: BinParser_getUInt32_def getUInt32_def hasRest_def)
  from glm rd failure_keeps_state [OF glm] failure_keeps_state [OF rd] show ?thesis
    by simp
qed

section \<open>Decoding Exp-Golomb codes\<close>

lemma bits_at_append:
  "bits_at obj k (xs @ ys) \<longleftrightarrow> bits_at obj k xs \<and> bits_at obj (k + length xs) ys"
  by (induction xs arbitrary: k) (simp_all add: ac_simps)

lemma length_msb_bits: "length (msb_bits n s) = n"
  by (induction n) simp_all

lemma msb_value_msb_bits: "msb_value a (msb_bits n s) = a * 2 ^ n + s mod 2 ^ n"
proof (induction n arbitrary: a)
  case 0
  then show ?case by simp
next
  case (Suc n)
  have "s mod (2 ^ n * 2) = 2 ^ n * (s div 2 ^ n mod 2) + s mod 2 ^ n"
    by (rule mod_mult2_eq)
  moreover have "s div 2 ^ n mod 2 = (if odd (s div 2 ^ n) then 1 else 0)"
    by (simp add: odd_iff_mod_2_eq_one)
  ultimately show ?case
    by (simp add: Suc.IH algebra_simps)
qed

lemma glm_prefix_zeros:
  assumes "bits_at obj k (replicate z False @ True # rest)" and len: "unat (bufLen obj) < 2 ^ 32"
  shows "glm_prefix obj (of_nat (k div 8)) (of_nat (k mod 8)) zs
           = Some (Left (of_nat ((k + z) div 8)) (of_nat ((k + z) mod 8)) (zs + of_nat z))"
  using assms(1)
proof (induction z arbitrary: k zs)
  case 0
  then have b: "bit_at obj k = Some True"
    by simp
  with len have small: "k div 8 < 2 ^ 32" and inb: "k div 8 < unat (bufLen obj)"
    by (auto dest: bit_at_in_buffer)
  from b inb show ?case
    by (subst glm_prefix.simps) (simp add: guard_canon [OF small] read_bit_canon [OF small])
next
  case (Suc z)
  then have b: "bit_at obj k = Some False"
    and rest: "bits_at obj (k + 1) (replicate z False @ True # rest)"
    by simp_all
  from b len have small: "k div 8 < 2 ^ 32" and inb: "k div 8 < unat (bufLen obj)"
    by (auto dest: bit_at_in_buffer)
  from Suc.IH [OF rest, of "zs + 1"]
  have "glm_prefix obj (of_nat ((k + 1) div 8)) (of_nat ((k + 1) mod 8)) (zs + 1)
          = Some (Left (of_nat ((k + Suc z) div 8)) (of_nat ((k + Suc z) mod 8))
              (zs + of_nat (Suc z)))"
    by (simp add: ac_simps)
  with b inb show ?case
    by (subst glm_prefix.simps)
      (simp add: guard_canon [OF small] read_bit_canon [OF small] next_bit_canon next_byte_canon)
qed

lemma glm_suffix_next:
  assumes b: "bit_at obj k = Some b" and len: "unat (bufLen obj) < 2 ^ 32"
  shows "glm_suffix obj (Suc m) (of_nat (k div 8)) (of_nat (k mod 8)) (of_nat a)
           = glm_suffix obj m (of_nat ((k + 1) div 8)) (of_nat ((k + 1) mod 8))
               (of_nat (2 * a + (if b then 1 else 0)))"
proof -
  from b len have small: "k div 8 < 2 ^ 32" and inb: "k div 8 < unat (bufLen obj)"
    by (auto dest: bit_at_in_buffer)
  from b inb
  have "glm_suffix obj (Suc m) (of_nat (k div 8)) (of_nat (k mod 8)) (of_nat a)
          = glm_suffix obj m ((of_nat (k div 8) :: u32) + drop_bit 3 (of_nat (k mod 8) + 1))
              ((of_nat (k mod 8) + 1) AND 7) (push_bit 1 (of_nat a) OR of_bool b)"
    by (simp add: guard_canon [OF small] read_bit_canon [OF small])
  then show ?thesis
    by (simp only: next_bit_canon next_byte_canon shift_in_bit)
qed

lemma glm_suffix_bits:
  assumes "bits_at obj k bs"
    and "length bs = n \<or> (length bs < n \<and> k + length bs = 8 * unat (bufLen obj))"
    and len: "unat (bufLen obj) < 2 ^ 32"
  shows "glm_suffix obj n (of_nat (k div 8)) (of_nat (k mod 8)) (of_nat a)
           = Left (of_nat ((k + length bs) div 8)) (of_nat ((k + length bs) mod 8))
               (of_nat (msb_value a bs))"
  using assms(1,2)
proof (induction bs arbitrary: k n a)
  case Nil
  show ?case
  proof (cases n)
    case 0
    then show ?thesis by simp
  next
    case (Suc m)
    with Nil.prems(2) have k: "k div 8 = unat (bufLen obj)"
      by simp
    with len have small: "k div 8 < 2 ^ 32"
      by simp
    from k have "\<not> k div 8 < unat (bufLen obj)"
      by simp
    with Suc show ?thesis
      by (simp add: guard_canon [OF small])
  qed
next
  case (Cons b bs)
  from Cons.prems(2) obtain m where n: "n = Suc m"
    by (cases n) auto
  from Cons.prems(1) have b: "bit_at obj k = Some b" and rest: "bits_at obj (k + 1) bs"
    by simp_all
  from b len have small: "k div 8 < 2 ^ 32" and inb: "k div 8 < unat (bufLen obj)"
    by (auto dest: bit_at_in_buffer)
  from Cons.prems(2) n
  have "length bs = m \<or> (length bs < m \<and> (k + 1) + length bs = 8 * unat (bufLen obj))"
    by auto
  note IH = Cons.IH [OF rest this, of "2 * a + (if b then 1 else 0)"]
  have "k + length (b # bs) = k + 1 + length bs"
    and "msb_value a (b # bs) = msb_value (2 * a + (if b then 1 else 0)) bs"
    by simp_all
  then show ?case
    unfolding n by (simp only: glm_suffix_next [OF b len] IH)
qed

lemma bits_at_fit:
  "bits_at obj k bs \<Longrightarrow> bs \<noteq> [] \<Longrightarrow> k + length bs \<le> 8 * unat (bufLen obj)"
proof (induction bs arbitrary: k)
  case Nil
  then show ?case by simp
next
  case (Cons b bs)
  then have "k div 8 < unat (bufLen obj)"
    by (auto dest: bit_at_in_buffer)
  with Cons.IH [of "k + 1"] Cons.prems show ?case
    by (cases "bs = []") auto
qed

lemma msb_value_less: "msb_value a bs < (a + 1) * 2 ^ length bs"
proof (induction bs arbitrary: a)
  case Nil
  then show ?case by simp
next
  case (Cons b bs)
  have "msb_value (2 * a + (if b then 1 else 0)) bs < (2 * a + (if b then 1 else 0) + 1) * 2 ^ length bs"
    by (rule Cons.IH)
  also have "\<dots> \<le> (2 * a + 2) * 2 ^ length bs"
    by simp
  finally show ?case
    by (simp add: algebra_simps)
qed

lemma ucast_canon: "x < 2 ^ 32 \<Longrightarrow> (ucast (of_nat x :: u32) :: u64) = of_nat x"
  by (simp add: word_unat_eq_iff unat_ucast_up unat_of_nat)

lemma bit_pos_cursor_at:
  assumes "k \<le> 8 * unat (bufLen obj)"
  shows "bit_pos (cursor_at obj k) = k"
proof -
  have "unat (bufLen obj) < 2 ^ LENGTH(64)"
    by (rule unsigned_less)
  with assms have "k div 8 < 2 ^ 64"
    by simp
  then have "unat (of_nat (k div 8) :: u64) = k div 8"
    by (simp add: unat_of_nat)
  then show ?thesis
    by (simp add: bit_pos_def cursor_at_def unat_canon_bit)
qed

lemma glm_value: "z \<le> 30 \<Longrightarrow> (of_nat m :: u32) + (push_bit z 1 - 1) = of_nat (m + 2 ^ z - 1)"
proof -
  have one: "(1 :: nat) \<le> 2 ^ z"
    by simp
  then have a: "(of_nat (2 ^ z - 1) :: u32) = 2 ^ z - 1"
    by (simp add: of_nat_diff)
  from one have b: "m + 2 ^ z - 1 = m + (2 ^ z - 1)"
    by arith
  show ?thesis
    unfolding push_bit_of_1 b of_nat_add a ..
qed

lemma getGlm_code:
  assumes inv: "cursor_inv obj" and len: "unat (bufLen obj) < 2 ^ 32" and z: "z \<le> 30"
    and bits: "bits_at obj (bit_pos obj) (replicate z False @ True # bs)"
    and avail: "length bs = z
      \<or> (length bs < z \<and> bit_pos obj + z + 1 + length bs = 8 * unat (bufLen obj))"
  shows "getGlm obj = Some (Done (cursor_at obj (bit_pos obj + z + 1 + length bs))
           (of_nat (msb_value 0 bs + 2 ^ z - 1)))"
proof -
  define k where "k = bit_pos obj"
  define k' where "k' = k + z + 1 + length bs"
  from inv have pb: "unat (posBit obj) < 8"
    by (simp add: cursor_inv_unat)
  have start: "(ucast (posByte obj) :: u32) = of_nat (k div 8)" "posBit obj = of_nat (k mod 8)"
    unfolding k_def by (rule canon_of_cursor [OF pb])+
  from bits have one: "bit_at obj (k + z) = Some True" and suffix: "bits_at obj (k + z + 1) bs"
    by (simp_all add: bits_at_append k_def)
  from bits_at_fit [OF bits] have fit: "k' \<le> 8 * unat (bufLen obj)"
    by (simp add: k_def k'_def)
  with len have small': "k' div 8 < 2 ^ 32"
    by simp
  from one len have small: "(k + z) div 8 < 2 ^ 32" and inb: "(k + z) div 8 < unat (bufLen obj)"
    by (auto dest: bit_at_in_buffer)
  from z have uz: "unat (of_nat z :: u32) = z"
    by (simp add: unat_of_nat)
  from bits have "glm_prefix obj (of_nat (k div 8)) (of_nat (k mod 8)) 0
      = Some (Left (of_nat ((k + z) div 8)) (of_nat ((k + z) mod 8)) (0 + of_nat z))"
    unfolding k_def by (rule glm_prefix_zeros [OF _ len])
  then have prefix: "glm_prefix obj (ucast (posByte obj)) (posBit obj) 0
      = Some (Left (of_nat ((k + z) div 8)) (of_nat ((k + z) mod 8)) (of_nat z))"
    by (simp add: start)
  from avail have "length bs = z \<or> (length bs < z \<and> k + z + 1 + length bs = 8 * unat (bufLen obj))"
    by (simp add: k_def)
  from glm_suffix_bits [OF suffix this len, of 0]
  have loop: "glm_suffix obj z (of_nat ((k + z + 1) div 8)) (of_nat ((k + z + 1) mod 8)) 0
      = Left (of_nat (k' div 8)) (of_nat (k' mod 8)) (of_nat (msb_value 0 bs))"
    by (simp add: k'_def)
  have "glm_rest obj (Left (of_nat ((k + z) div 8)) (of_nat ((k + z) mod 8)) (of_nat z))
      = Done (obj\<lparr>posBit := of_nat (k' mod 8), posByte := ucast (of_nat (k' div 8) :: u32)\<rparr>)
          (of_nat (msb_value 0 bs) + (push_bit z 1 - 1))"
    using inb z loop
    by (simp add: glm_rest_def guard_canon [OF small] uz next_bit_canon next_byte_canon)
  then have "glm_rest obj (Left (of_nat ((k + z) div 8)) (of_nat ((k + z) mod 8)) (of_nat z))
      = Done (cursor_at obj k') (of_nat (msb_value 0 bs + 2 ^ z - 1))"
    by (simp only: cursor_at_def ucast_canon [OF small'] glm_value [OF z])
      simp
  with prefix show ?thesis
    by (simp add: getGlm_def k'_def k_def)
qed

lemma length_glm_code: "length (glm_code zeros suffix) = 2 * zeros + 1"
  by (simp add: glm_code_def length_msb_bits)

text \<open>
  Claim C5, as amended: for every value \<open>v = suffix + 2 ^ zeros - 1\<close> with at most 30
  prefix zeros (that is, \<open>v \<le> 2 ^ 31 - 2\<close>) whose Exp-Golomb code (\<open>zeros\<close> 0 bits, a 1
  bit, then \<open>zeros\<close> suffix bits) lies in the buffer at the cursor, on a reader that
  satisfies the cursor invariant and whose buffer is shorter than $2^{32}$ bytes, the
  unsigned Exp-Golomb read returns exactly \<open>v\<close> and leaves the cursor just past the code.
\<close>

theorem getGlm_decodes_code:
  assumes "cursor_inv obj" and "unat (bufLen obj) < 2 ^ 32"
    and "zeros \<le> 30" and "suffix < 2 ^ zeros"
    and "bits_at obj (bit_pos obj) (glm_code zeros suffix)"
  shows "BinParser_getGlm obj
           = Some (Done (cursor_at obj (bit_pos obj + length (glm_code zeros suffix)))
               (of_nat (suffix + 2 ^ zeros - 1)))
         \<and> unat (of_nat (suffix + 2 ^ zeros - 1) :: u32) = suffix + 2 ^ zeros - 1
         \<and> bit_pos (cursor_at obj (bit_pos obj + length (glm_code zeros suffix)))
             = bit_pos obj + length (glm_code zeros suffix)"
proof -
  have "2 ^ zeros \<le> (2 :: nat) ^ 30"
    using assms(3) by (intro power_increasing) simp_all
  with assms(4) have "suffix + 2 ^ zeros - 1 < 2 ^ 32"
    by simp
  then have val: "unat (of_nat (suffix + 2 ^ zeros - 1) :: u32) = suffix + 2 ^ zeros - 1"
    by (simp add: unat_of_nat)
  have "glm_code zeros suffix \<noteq> []"
    by (simp add: glm_code_def)
  with bits_at_fit [OF assms(5)]
  have "bit_pos obj + length (glm_code zeros suffix) \<le> 8 * unat (bufLen obj)"
    by simp
  then have pos: "bit_pos (cursor_at obj (bit_pos obj + length (glm_code zeros suffix)))
      = bit_pos obj + length (glm_code zeros suffix)"
    by (rule bit_pos_cursor_at)
  from assms(5) have "bits_at obj (bit_pos obj) (replicate zeros False @ True # msb_bits zeros suffix)"
    by (simp add: glm_code_def)
  note decoded = getGlm_code [OF assms(1,2,3) this]
  have "bit_pos obj + zeros + 1 + length (msb_bits zeros suffix)
      = bit_pos obj + length (glm_code zeros suffix)"
    by (simp add: length_msb_bits length_glm_code)
  moreover from assms(4) have "msb_value 0 (msb_bits zeros suffix) = suffix"
    by (simp add: msb_value_msb_bits)
  ultimately have "getGlm obj
      = Some (Done (cursor_at obj (bit_pos obj + length (glm_code zeros suffix)))
          (of_nat (suffix + 2 ^ zeros - 1)))"
    using decoded by (simp only: length_msb_bits simp_thms)
  with val pos show ?thesis
    by (simp add: BinParser_getGlm_def)
qed

text \<open>
  Claim C6, as amended: on a reader that satisfies the cursor invariant and whose buffer
  is shorter than $2^{32}$ bytes, if the bits at the cursor are \<open>zeros \<le> 30\<close> 0 bits and
  a 1 bit, and the buffer ends after fewer than \<open>zeros\<close> further bits \<open>bs\<close>, then the
  unsigned Exp-Golomb read returns success, the value is the number that \<open>bs\<close> denotes
  (most significant bit first) plus \<open>2 ^ zeros - 1\<close>, and the cursor is left at the end of
  the buffer.
\<close>

theorem getGlm_truncated_suffix:
  assumes "cursor_inv obj" and "unat (bufLen obj) < 2 ^ 32" and "zeros \<le> 30"
    and "bits_at obj (bit_pos obj) (replicate zeros False @ True # bs)"
    and "length bs < zeros"
    and "bit_pos obj + zeros + 1 + length bs = 8 * unat (bufLen obj)"
  shows "BinParser_getGlm obj
           = Some (Done (obj\<lparr>posByte := bufLen obj, posBit := 0\<rparr>)
               (of_nat (msb_value 0 bs + 2 ^ zeros - 1)))
         \<and> unat (of_nat (msb_value 0 bs + 2 ^ zeros - 1) :: u32) = msb_value 0 bs + 2 ^ zeros - 1"
proof -
  have "msb_value 0 bs < 2 ^ length bs"
    using msb_value_less [of 0 bs] by simp
  also have "(2 :: nat) ^ length bs \<le> 2 ^ zeros"
    using assms(5) by (intro power_increasing) simp_all
  finally have "msb_value 0 bs < 2 ^ zeros" .
  moreover have "2 ^ zeros \<le> (2 :: nat) ^ 30"
    using assms(3) by (intro power_increasing) simp_all
  ultimately have "msb_value 0 bs + 2 ^ zeros - 1 < 2 ^ 32"
    by simp
  then have val: "unat (of_nat (msb_value 0 bs + 2 ^ zeros - 1) :: u32)
      = msb_value 0 bs + 2 ^ zeros - 1"
    by (simp add: unat_of_nat)
  have "cursor_at obj (8 * unat (bufLen obj)) = obj\<lparr>posByte := bufLen obj, posBit := 0\<rparr>"
    by (simp add: cursor_at_def)
  with getGlm_code [OF assms(1,2,3,4)] assms(5,6)
  have "getGlm obj
      = Some (Done (obj\<lparr>posByte := bufLen obj, posBit := 0\<rparr>)
          (of_nat (msb_value 0 bs + 2 ^ zeros - 1)))"
    by simp
  with val show ?thesis
    by (simp add: BinParser_getGlm_def)
qed

text \<open>
  The theorem at the five codes of the specification: the bit patterns \<open>1\<close>, \<open>010\<close>,
  \<open>011\<close>, \<open>00100\<close> and \<open>00101\<close> at the start of a one-byte buffer decode to 0, 1, 2, 3
  and 4, and the cursor is left after 1, 3, 3, 5 and 5 bits.
\<close>

theorem getGlm_decodes_code_witness:
  "bits_at (BinParser_new [0x80] 1) 0 (glm_code 0 0)
   \<and> BinParser_getGlm (BinParser_new [0x80] 1) = Some (Done ((BinParser_new [0x80] 1)\<lparr>posBit := 1\<rparr>) 0)
   \<and> bits_at (BinParser_new [0x40] 1) 0 (glm_code 1 0)
   \<and> BinParser_getGlm (BinParser_new [0x40] 1) = Some (Done ((BinParser_new [0x40] 1)\<lparr>posBit := 3\<rparr>) 1)
   \<and> bits_at (BinParser_new [0x60] 1) 0 (glm_code 1 1)
   \<and> BinParser_getGlm (BinParser_new [0x60] 1) = Some (Done ((BinParser_new [0x60] 1)\<lparr>posBit := 3\<rparr>) 2)
   \<and> bits_at (BinParser_new [0x20] 1) 0 (glm_code 2 0)
   \<and> BinParser_getGlm (BinParser_new [0x20] 1) = Some (Done ((BinParser_new [0x20] 1)\<lparr>posBit := 5\<rparr>) 3)
   \<and> bits_at (BinParser_new [0x28] 1) 0 (glm_code 2 1)
   \<and> BinParser_getGlm (BinParser_new [0x28] 1) = Some (Done ((BinParser_new [0x28] 1)\<lparr>posBit := 5\<rparr>) 4)"
proof -
  have e0: "BinParser_getGlm (BinParser_new [0x80] 1) = Some (Done ((BinParser_new [0x80] 1)\<lparr>posBit := 1\<rparr>) 0)"
    and e0_bits: "bits_at (BinParser_new [0x80] 1) 0 (glm_code 0 0)"
  proof -
    have inv: "cursor_inv (BinParser_new [0x80] 1)"
      by (simp add: cursor_inv_def BinParser_new_def)
    have len: "unat (bufLen (BinParser_new [0x80] 1)) < 2 ^ 32"
      by (simp add: BinParser_new_def)
    have z: "(0 :: nat) \<le> 30" and s: "(0 :: nat) < 2 ^ 0"
      by simp_all
    have pos: "bit_pos (BinParser_new [0x80] 1) = 0"
      by (simp add: bit_pos_def BinParser_new_def)
    show bits: "bits_at (BinParser_new [0x80] 1) 0 (glm_code 0 0)"
      by (simp add: BinParser_new_def glm_code_def bit_at_def buf_at_def replicate_step
          msb_bits_step)
    from getGlm_decodes_code [OF inv len z s, unfolded pos, OF bits]
    show "BinParser_getGlm (BinParser_new [0x80] 1) = Some (Done ((BinParser_new [0x80] 1)\<lparr>posBit := 1\<rparr>) 0)"
      by (simp add: cursor_at_def length_glm_code BinParser_new_def)
  qed
  have e1: "BinParser_getGlm (BinParser_new [0x40] 1) = Some (Done ((BinParser_new [0x40] 1)\<lparr>posBit := 3\<rparr>) 1)"
    and e1_bits: "bits_at (BinParser_new [0x40] 1) 0 (glm_code 1 0)"
  proof -
    have inv: "cursor_inv (BinParser_new [0x40] 1)"
      by (simp add: cursor_inv_def BinParser_new_def)
    have len: "unat (bufLen (BinParser_new [0x40] 1)) < 2 ^ 32"
      by (simp add: BinParser_new_def)
    have z: "(1 :: nat) \<le> 30" and s: "(0 :: nat) < 2 ^ 1"
      by simp_all
    have pos: "bit_pos (BinParser_new [0x40] 1) = 0"
      by (simp add: bit_pos_def BinParser_new_def)
    show bits: "bits_at (BinParser_new [0x40] 1) 0 (glm_code 1 0)"
      by (simp add: BinParser_new_def glm_code_def bit_at_def buf_at_def replicate_step
          msb_bits_step)
    from getGlm_decodes_code [OF inv len z s, unfolded pos, OF bits]
    show "BinParser_getGlm (BinParser_new [0x40] 1) = Some (Done ((BinParser_new [0x40] 1)\<lparr>posBit := 3\<rparr>) 1)"
      by (simp add: cursor_at_def length_glm_code BinParser_new_def)
  qed
  have e2: "BinParser_getGlm (BinParser_new [0x60] 1) = Some (Done ((BinParser_new [0x60] 1)\<lparr>posBit := 3\<rparr>) 2)"
    and e2_bits: "bits_at (BinParser_new [0x60] 1) 0 (glm_code 1 1)"
  proof -
    have inv: "cursor_inv (BinParser_new [0x60] 1)"
      by (simp add: cursor_inv_def BinParser_new_def)
    have len: "unat (bufLen (BinParser_new [0x60] 1)) < 2 ^ 32"
      by (simp add: BinParser_new_def)
    have z: "(1 :: nat) \<le> 30" and s: "(1 :: nat) < 2 ^ 1"
      by simp_all
    have pos: "bit_pos (BinParser_new [0x60] 1) = 0"
      by (simp add: bit_pos_def BinParser_new_def)
    show bits: "bits_at (BinParser_new [0x60] 1) 0 (glm_code 1 1)"
      by (simp add: BinParser_new_def glm_code_def bit_at_def buf_at_def replicate_step
          msb_bits_step)
    from getGlm_decodes_code [OF inv len z s, unfolded pos, OF bits]
    show "BinParser_getGlm (BinParser_new [0x60] 1) = Some (Done ((BinParser_new [0x60] 1)\<lparr>posBit := 3\<rparr>) 2)"
      by (simp add: cursor_at_def length_glm_code BinParser_new_def)
  qed
  have e3: "BinParser_getGlm (BinParser_new [0x20] 1) = Some (Done ((BinParser_new [0x20] 1)\<lparr>posBit := 5\<rparr>) 3)"
    and e3_bits: "bits_at (BinParser_new [0x20] 1) 0 (glm_code 2 0)"
  proof -
    have inv: "cursor_inv (BinParser_new [0x20] 1)"
      by (simp add: cursor_inv_def BinParser_new_def)
    have len: "unat (bufLen (BinParser_new [0x20] 1)) < 2 ^ 32"
      by (simp add: BinParser_new_def)
    have z: "(2 :: nat) \<le> 30" and s: "(0 :: nat) < 2 ^ 2"
      by simp_all
    have pos: "bit_pos (BinParser_new [0x20] 1) = 0"
      by (simp add: bit_pos_def BinParser_new_def)
    show bits: "bits_at (BinParser_new [0x20] 1) 0 (glm_code 2 0)"
      by (simp add: BinParser_new_def glm_code_def bit_at_def buf_at_def replicate_step
          msb_bits_step)
    from getGlm_decodes_code [OF inv len z s, unfolded pos, OF bits]
    show "BinParser_getGlm (BinParser_new [0x20] 1) = Some (Done ((BinParser_new [0x20] 1)\<lparr>posBit := 5\<rparr>) 3)"
      by (simp add: cursor_at_def length_glm_code BinParser_new_def)
  qed
  have e4: "BinParser_getGlm (BinParser_new [0x28] 1) = Some (Done ((BinParser_new [0x28] 1)\<lparr>posBit := 5\<rparr>) 4)"
    and e4_bits: "bits_at (BinParser_new [0x28] 1) 0 (glm_code 2 1)"
  proof -
    have inv: "cursor_inv (BinParser_new [0x28] 1)"
      by (simp add: cursor_inv_def BinParser_new_def)
    have len: "unat (bufLen (BinParser_new [0x28] 1)) < 2 ^ 32"
      by (simp add: BinParser_new_def)
    have z: "(2 :: nat) \<le> 30" and s: "(1 :: nat) < 2 ^ 2"
      by simp_all
    have pos: "bit_pos (BinParser_new [0x28] 1) = 0"
      by (simp add: bit_pos_def BinParser_new_def)
    show bits: "bits_at (BinParser_new [0x28] 1) 0 (glm_code 2 1)"
      by (simp add: BinParser_new_def glm_code_def bit_at_def buf_at_def replicate_step
          msb_bits_step)
    from getGlm_decodes_code [OF inv len z s, unfolded pos, OF bits]
    show "BinParser_getGlm (BinParser_new [0x28] 1) = Some (Done ((BinParser_new [0x28] 1)\<lparr>posBit := 5\<rparr>) 4)"
      by (simp add: cursor_at_def length_glm_code BinParser_new_def)
  qed
  from e0 e0_bits e1 e1_bits e2 e2_bits e3 e3_bits e4 e4_bits show ?thesis
    by blast
qed

text \<open>
  Claim C5 as it is written speaks of every non-negative value. The code of $2^{32}$ is
  32 zeros, a 1 and the 32 suffix bits of 1; it fits a buffer of nine bytes, but no
  \<^verbatim>\<open>uint32_t\<close> is $2^{32}$, and with 32 zeros counted the read ends in the shift
  \<^verbatim>\<open>1 << 32\<close> of an \<^verbatim>\<open>int\<close>.
\<close>

theorem getGlm_large_value_counterexample:
  "cursor_inv (BinParser_new [0, 0, 0, 0, 0x80, 0, 0, 0, 0x80] 9)
   \<and> bits_at (BinParser_new [0, 0, 0, 0, 0x80, 0, 0, 0, 0x80] 9) 0 (glm_code 32 1)
   \<and> (1 :: nat) + 2 ^ 32 - 1 = 4294967296
   \<and> BinParser_getGlm (BinParser_new [0, 0, 0, 0, 0x80, 0, 0, 0, 0x80] 9)
       = Some (Undefined ShiftRange)"
proof -
  let ?st = "BinParser_new [0, 0, 0, 0, 0x80, 0, 0, 0, 0x80] 9"
  have "bits_at ?st 0 (glm_code 32 1)"
    by (simp add: BinParser_new_def glm_code_def bit_at_def buf_at_def replicate_step msb_bits_step)
  moreover have "glm_prefix ?st 0 0 0 = Some (Left 4 0 32)"
    by (simp add: BinParser_new_def glm_prefix.simps read_bit_def buf_at_def word_le_nat_alt)
  moreover have "glm_suffix ?st 32 4 1 0 = Left 8 1 1"
    by (simp add: BinParser_new_def glm_suffix_step read_bit_def buf_at_def word_le_nat_alt)
  ultimately show ?thesis
    by (simp add: BinParser_getGlm_def getGlm_def glm_rest_def cursor_inv_def BinParser_new_def)
qed

text \<open>
  The byte \<open>0B\<close> is four zeros, a 1 and the three bits \<open>011\<close>, one fewer than the suffix
  needs: the read succeeds with \<open>3 + 2 ^ 4 - 1 = 18\<close> and leaves the cursor at the end.
\<close>

theorem getGlm_truncated_suffix_witness:
  "cursor_inv (BinParser_new [0x0B] 1)
   \<and> bits_at (BinParser_new [0x0B] 1) 0 (replicate 4 False @ True # [False, True, True])
   \<and> length [False, True, True] < (4 :: nat)
   \<and> BinParser_getGlm (BinParser_new [0x0B] 1)
       = Some (Done ((BinParser_new [0x0B] 1)\<lparr>posByte := 1\<rparr>) 18)"
proof -
  let ?st = "BinParser_new [0x0B] 1"
  have inv: "cursor_inv ?st"
    by (simp add: cursor_inv_def BinParser_new_def)
  have len: "unat (bufLen ?st) < 2 ^ 32"
    by (simp add: BinParser_new_def)
  have z: "(4 :: nat) \<le> 30" and short: "length [False, True, True] < (4 :: nat)"
    by simp_all
  have pos: "bit_pos ?st = 0"
    by (simp add: bit_pos_def BinParser_new_def)
  have bits: "bits_at ?st 0 (replicate 4 False @ True # [False, True, True])"
    by (simp add: BinParser_new_def bit_at_def buf_at_def replicate_step)
  have full: "0 + 4 + 1 + length [False, True, True] = 8 * unat (bufLen ?st)"
    by (simp add: BinParser_new_def)
  from getGlm_truncated_suffix [OF inv len z, unfolded pos, OF bits short full]
  have "BinParser_getGlm ?st = Some (Done (?st\<lparr>posByte := 1\<rparr>) 18)"
    by (simp add: BinParser_new_def)
  with inv bits short show ?thesis
    by blast
qed

text \<open>
  Claim C6 as it is written has no bound on the number of zeros. The five bytes
  \<open>00 00 00 00 40\<close> are 33 zeros, a 1 and six of the 33 suffix bits;
  \<open>2 ^ 33 - 1\<close> is no \<^verbatim>\<open>uint32_t\<close>, and the read ends in the shift \<^verbatim>\<open>1 << 33\<close> of an
  \<^verbatim>\<open>int\<close>, not in a success.
\<close>

theorem getGlm_truncated_suffix_counterexample:
  "cursor_inv (BinParser_new [0, 0, 0, 0, 0x40] 5)
   \<and> bits_at (BinParser_new [0, 0, 0, 0, 0x40] 5) 0
        (replicate 33 False @ True # replicate 6 False)
   \<and> 0 + 33 + 1 + length (replicate 6 False) = 8 * unat (bufLen (BinParser_new [0, 0, 0, 0, 0x40] 5))
   \<and> BinParser_getGlm (BinParser_new [0, 0, 0, 0, 0x40] 5) = Some (Undefined ShiftRange)"
proof -
  let ?st = "BinParser_new [0, 0, 0, 0, 0x40] 5"
  have "bits_at ?st 0 (replicate 33 False @ True # replicate 6 False)"
    by (simp add: BinParser_new_def bit_at_def buf_at_def replicate_step)
  moreover have "glm_prefix ?st 0 0 0 = Some (Left 4 1 33)"
    by (simp add: BinParser_new_def glm_prefix.simps read_bit_def buf_at_def word_le_nat_alt)
  moreover have "glm_suffix ?st 33 4 2 0 = Left 5 0 0"
    by (simp add: BinParser_new_def glm_suffix_step read_bit_def buf_at_def word_le_nat_alt)
  ultimately show ?thesis
    by (simp add: BinParser_getGlm_def getGlm_def glm_rest_def cursor_inv_def BinParser_new_def)
qed

section \<open>The signed Exp-Golomb read\<close>

lemma glm_suffix_width:
  "glm_suffix obj n pB pb acc = Left pB' pb' v \<Longrightarrow> (\<And>j. m \<le> j \<Longrightarrow> \<not> bit acc j) \<Longrightarrow> m + n \<le> j
   \<Longrightarrow> \<not> bit v j"
proof (induction n arbitrary: pB pb acc m)
  case 0
  then show ?case by simp
next
  case (Suc n)
  show ?case
  proof (cases "ucast pB < bufLen obj")
    case False
    with Suc.prems show ?thesis by simp
  next
    case True
    with Suc.prems(1) obtain b where b: "read_bit obj (unat pB) pb = Inr b"
      and rest: "glm_suffix obj n (pB + drop_bit 3 (pb + 1)) ((pb + 1) AND 7) (push_bit 1 acc OR b)
                   = Left pB' pb' v"
      by (auto split: if_splits sum.splits)
    have "\<not> bit (push_bit 1 acc OR b) i" if "Suc m \<le> i" for i
    proof
      assume "bit (push_bit 1 acc OR b) i"
      then have "(0 < i \<and> i < 32 \<and> bit acc (i - 1)) \<or> bit b i"
        by (simp only: shifted_bit)
      with that Suc.prems(2) [of "i - 1"] read_bit_is_bit [OF b, of i] show False
        by auto
    qed
    from Suc.IH [OF rest this, of "Suc m"] Suc.prems(3) show ?thesis
      by simp
  qed
qed

lemma low_bits_only:
  assumes "\<And>j. n \<le> j \<Longrightarrow> \<not> bit (w :: u32) j"
  shows "take_bit n w = w"
proof (rule bit_word_eqI)
  fix j
  show "bit (take_bit n w) j = bit w j"
    using assms [of j] by (cases "j < n") (auto simp add: bit_take_bit_iff)
qed

lemma upper_bits_clear:
  assumes "\<And>j. n \<le> j \<Longrightarrow> \<not> bit (w :: u32) j"
  shows "unat w < 2 ^ n"
proof -
  have "take_bit n w = w"
    using assms by (rule low_bits_only)
  then have "unat w = take_bit n (unat w)"
    by (metis unsigned_take_bit_eq)
  then show ?thesis
    by (metis take_bit_nat_less_exp)
qed

lemma glm_rest_small:
  assumes "glm_rest obj e = Done obj' u"
  shows "unat u < 2 ^ 31"
proof -
  from assms obtain pB pb and zs :: u32 where e: "e = Left pB pb zs"
    by (cases e) (simp_all add: glm_rest_def)
  from assms e have inb: "\<not> bufLen obj \<le> ucast pB"
    by (auto simp add: glm_rest_def split: if_splits)
  with assms e obtain pB' pb' tmpVal where
    loop: "glm_suffix obj (unat zs) (pB + drop_bit 3 (pb + 1)) ((pb + 1) AND 7) 0
             = Left pB' pb' tmpVal"
    by (cases "glm_suffix obj (unat zs) (pB + drop_bit 3 (pb + 1)) ((pb + 1) AND 7) 0")
      (simp_all add: glm_rest_def)
  from assms e inb loop have z: "unat zs \<le> 30"
    by (simp add: glm_rest_def split: if_splits)
  with assms e inb loop have u: "u = tmpVal + (push_bit (unat zs) 1 - 1)"
    by (auto simp add: glm_rest_def)
  have "\<not> bit tmpVal j" if "unat zs \<le> j" for j
    using glm_suffix_width [OF loop, of 0 j] that by simp
  then have small: "unat tmpVal < 2 ^ unat zs"
    by (rule upper_bits_clear)
  have "u = of_nat (unat tmpVal) + (push_bit (unat zs) 1 - 1)"
    by (simp only: u of_nat_unat ucast_id)
  then have "u = of_nat (unat tmpVal + 2 ^ unat zs - 1)"
    by (simp only: glm_value [OF z])
  then have "unat u \<le> unat tmpVal + 2 ^ unat zs - 1"
    by (simp add: unat_of_nat)
  also from small have "\<dots> < 2 ^ Suc (unat zs)"
    by simp
  also from z have "(2 :: nat) ^ Suc (unat zs) \<le> 2 ^ 31"
    by (intro power_increasing) simp_all
  finally show ?thesis .
qed

lemma uint_small:
  assumes "unat (w :: u32) < 2 ^ 31"
  shows "uint w < 2 ^ 31"
proof -
  from assms have "int (unat w) < int (2 ^ 31)"
    by (simp only: of_nat_less_iff)
  then show ?thesis
    by simp
qed

lemma sint_small:
  assumes "uint (w :: u32) < 2 ^ 31"
  shows "sint w = uint w"
proof -
  have "- (2 ^ 31) \<le> uint w"
    by (rule order_trans [of _ 0]) simp_all
  from this assms have "signed_take_bit 31 (uint w) = uint w"
    by (rule signed_take_bit_int_eq_self)
  then show ?thesis
    by (simp add: sint_uint)
qed

lemma odd_uint: "odd (uint (w :: u32)) \<longleftrightarrow> w AND 1 \<noteq> 0"
proof -
  have "odd (uint w) \<longleftrightarrow> bit (uint w) 0"
    by (simp add: bit_0)
  also have "\<dots> \<longleftrightarrow> bit w 0"
    by (simp add: bit_unsigned_iff)
  also have "\<dots> \<longleftrightarrow> w AND 1 \<noteq> 0"
    by (cases "odd w") (simp_all add: bit_0 and_one_eq odd_iff_mod_2_eq_one even_iff_mod_2_eq_zero)
  finally show ?thesis .
qed

lemma uint_half: "uint (drop_bit 1 (u :: u32)) = uint u div 2"
  by (simp add: drop_bit_eq_div uint_div)

lemma half_bounds:
  assumes "0 \<le> (x :: int)" and "x < 2 ^ 31"
  shows "x div 2 + 1 < 2 ^ 31" and "x div 2 < 2 ^ 31"
    and "- (2 ^ 31) \<le> - (x div 2)" and "- (x div 2) < 2 ^ 31"
proof -
  from assms(2) have "x < 2147483648"
    by simp
  with assms(1) have "x div 2 + 1 < 2147483648 \<and> x div 2 < 2147483648
      \<and> - 2147483648 \<le> - (x div 2) \<and> - (x div 2) < 2147483648"
    by arith
  then show "x div 2 + 1 < 2 ^ 31" and "x div 2 < 2 ^ 31"
    and "- (2 ^ 31) \<le> - (x div 2)" and "- (x div 2) < 2 ^ 31"
    by simp_all
qed

lemma signed_map_odd:
  assumes "uint (u :: u32) < 2 ^ 31"
  shows "sint (drop_bit 1 u + 1) = uint u div 2 + 1"
proof -
  have half: "uint (drop_bit 1 u) = uint u div 2"
    by (rule uint_half)
  have one: "uint (1 :: u32) = 1"
    by simp
  have nonneg: "0 \<le> uint u"
    by simp
  note bound = half_bounds(1) [OF nonneg assms]
  then have "uint (drop_bit 1 u) + uint (1 :: u32) < 2 ^ LENGTH(32)"
    unfolding half one by simp
  then have eq: "uint (drop_bit 1 u + 1) = uint u div 2 + 1"
    unfolding half [symmetric] by (simp only: uint_add_lem [THEN iffD1] one)
  with bound have "uint (drop_bit 1 u + 1) < 2 ^ 31"
    by (simp only:)
  from sint_small [OF this] eq show ?thesis
    by (simp only:)
qed

lemma signed_map_even:
  assumes "uint (u :: u32) < 2 ^ 31"
  shows "sint (- drop_bit 1 u) = - (uint u div 2)"
proof -
  have half: "uint (drop_bit 1 u) = uint u div 2"
    by (rule uint_half)
  have nonneg: "0 \<le> uint u"
    by simp
  note bounds = half_bounds [OF nonneg assms]
  from bounds(2) have "uint (drop_bit 1 u) < 2 ^ 31"
    by (simp only: half)
  from sint_small [OF this] have pos: "sint (drop_bit 1 u) = uint u div 2"
    by (simp only: half)
  from bounds(3,4) have "signed_take_bit 31 (- (uint u div 2)) = - (uint u div 2)"
    by (rule signed_take_bit_int_eq_self)
  moreover have "sint (- drop_bit 1 u) = signed_take_bit 31 (- sint (drop_bit 1 u))"
    unfolding sint_word_minus by simp
  ultimately show ?thesis
    by (simp only: pos)
qed

text \<open>
  Claim C7: wherever the unsigned Exp-Golomb read succeeds with a value \<open>u\<close>, the signed
  read at the same position succeeds with the same final state, and its result, read as
  a signed 32-bit number, is \<open>(u >> 1) + 1\<close> when \<open>u\<close> is odd and \<open>-(u >> 1)\<close> when \<open>u\<close>
  is even.
\<close>

theorem getSGlm_maps_getGlm:
  assumes "BinParser_getGlm obj = Some (Done obj' u)"
  shows "\<exists>s. BinParser_getSGlm obj = Some (Done obj' s)
           \<and> sint s = (if odd (uint u) then uint u div 2 + 1 else - (uint u div 2))"
proof -
  from assms obtain e where "glm_rest obj e = Done obj' u"
    by (auto simp add: BinParser_getGlm_def getGlm_def)
  then have small: "uint u < 2 ^ 31"
    by (intro uint_small glm_rest_small)
  from assms have "BinParser_getSGlm obj
      = Some (Done obj' (if u AND 1 \<noteq> 0 then drop_bit 1 u + 1 else - drop_bit 1 u))"
    by (simp add: BinParser_getSGlm_def getSGlm_def BinParser_getGlm_def)
  with signed_map_odd [OF small] signed_map_even [OF small] show ?thesis
    by (simp add: odd_uint)
qed

text \<open>
  The theorem at the five codes of the specification: the unsigned values 0, 1, 2, 3 and
  4 (the bit patterns \<open>1\<close>, \<open>010\<close>, \<open>011\<close>, \<open>00100\<close>, \<open>00101\<close>) give the signed values
  0, 1, -1, 2 and -2.
\<close>

theorem getSGlm_maps_getGlm_witness:
  "BinParser_getGlm (BinParser_new [0x80] 1) = Some (Done ((BinParser_new [0x80] 1)\<lparr>posBit := 1\<rparr>) 0)
   \<and> (\<exists>s. BinParser_getSGlm (BinParser_new [0x80] 1) = Some (Done ((BinParser_new [0x80] 1)\<lparr>posBit := 1\<rparr>) s)
         \<and> sint s = 0)
   \<and> BinParser_getGlm (BinParser_new [0x40] 1) = Some (Done ((BinParser_new [0x40] 1)\<lparr>posBit := 3\<rparr>) 1)
   \<and> (\<exists>s. BinParser_getSGlm (BinParser_new [0x40] 1) = Some (Done ((BinParser_new [0x40] 1)\<lparr>posBit := 3\<rparr>) s)
         \<and> sint s = 1)
   \<and> BinParser_getGlm (BinParser_new [0x60] 1) = Some (Done ((BinParser_new [0x60] 1)\<lparr>posBit := 3\<rparr>) 2)
   \<and> (\<exists>s. BinParser_getSGlm (BinParser_new [0x60] 1) = Some (Done ((BinParser_new [0x60] 1)\<lparr>posBit := 3\<rparr>) s)
         \<and> sint s = - 1)
   \<and> BinParser_getGlm (BinParser_new [0x20] 1) = Some (Done ((BinParser_new [0x20] 1)\<lparr>posBit := 5\<rparr>) 3)
   \<and> (\<exists>s. BinParser_getSGlm (BinParser_new [0x20] 1) = Some (Done ((BinParser_new [0x20] 1)\<lparr>posBit := 5\<rparr>) s)
         \<and> sint s = 2)
   \<and> BinParser_getGlm (BinParser_new [0x28] 1) = Some (Done ((BinParser_new [0x28] 1)\<lparr>posBit := 5\<rparr>) 4)
   \<and> (\<exists>s. BinParser_getSGlm (BinParser_new [0x28] 1) = Some (Done ((BinParser_new [0x28] 1)\<lparr>posBit := 5\<rparr>) s)
         \<and> sint s = - 2)"
proof -
  have e0: "BinParser_getGlm (BinParser_new [0x80] 1) = Some (Done ((BinParser_new [0x80] 1)\<lparr>posBit := 1\<rparr>) 0)"
    by (simp add: BinParser_getGlm_def getGlm_def glm_prefix.simps glm_rest_def glm_suffix_step
        read_bit_def buf_at_def BinParser_new_def word_le_nat_alt)
  from getSGlm_maps_getGlm [OF e0]
  have e0s: "\<exists>s. BinParser_getSGlm (BinParser_new [0x80] 1) = Some (Done ((BinParser_new [0x80] 1)\<lparr>posBit := 1\<rparr>) s)
      \<and> sint s = 0"
    by simp
  have e1: "BinParser_getGlm (BinParser_new [0x40] 1) = Some (Done ((BinParser_new [0x40] 1)\<lparr>posBit := 3\<rparr>) 1)"
    by (simp add: BinParser_getGlm_def getGlm_def glm_prefix.simps glm_rest_def glm_suffix_step
        read_bit_def buf_at_def BinParser_new_def word_le_nat_alt)
  from getSGlm_maps_getGlm [OF e1]
  have e1s: "\<exists>s. BinParser_getSGlm (BinParser_new [0x40] 1) = Some (Done ((BinParser_new [0x40] 1)\<lparr>posBit := 3\<rparr>) s)
      \<and> sint s = 1"
    by simp
  have e2: "BinParser_getGlm (BinParser_new [0x60] 1) = Some (Done ((BinParser_new [0x60] 1)\<lparr>posBit := 3\<rparr>) 2)"
    by (simp add: BinParser_getGlm_def getGlm_def glm_prefix.simps glm_rest_def glm_suffix_step
        read_bit_def buf_at_def BinParser_new_def word_le_nat_alt)
  from getSGlm_maps_getGlm [OF e2]
  have e2s: "\<exists>s. BinParser_getSGlm (BinParser_new [0x60] 1) = Some (Done ((BinParser_new [0x60] 1)\<lparr>posBit := 3\<rparr>) s)
      \<and> sint s = - 1"
    by simp
  have e3: "BinParser_getGlm (BinParser_new [0x20] 1) = Some (Done ((BinParser_new [0x20] 1)\<lparr>posBit := 5\<rparr>) 3)"
    by (simp add: BinParser_getGlm_def getGlm_def glm_prefix.simps glm_rest_def glm_suffix_step
        read_bit_def buf_at_def BinParser_new_def word_le_nat_alt)
  from getSGlm_maps_getGlm [OF e3]
  have e3s: "\<exists>s. BinParser_getSGlm (BinParser_new [0x20] 1) = Some (Done ((BinParser_new [0x20] 1)\<lparr>posBit := 5\<rparr>) s)
      \<and> sint s = 2"
    by simp
  have e4: "BinParser_getGlm (BinParser_new [0x28] 1) = Some (Done ((BinParser_new [0x28] 1)\<lparr>posBit := 5\<rparr>) 4)"
    by (simp add: BinParser_getGlm_def getGlm_def glm_prefix.simps glm_rest_def glm_suffix_step
        read_bit_def buf_at_def BinParser_new_def word_le_nat_alt)
  from getSGlm_maps_getGlm [OF e4]
  have e4s: "\<exists>s. BinParser_getSGlm (BinParser_new [0x28] 1) = Some (Done ((BinParser_new [0x28] 1)\<lparr>posBit := 5\<rparr>) s)
      \<and> sint s = - 2"
    by simp
  from e0 e0s e1 e1s e2 e2s e3 e3s e4 e4s show ?thesis
    by (intro conjI)
qed

section \<open>The signed 32-bit read\<close>

lemma cast_mask: "n \<le> 32 \<Longrightarrow> (ucast (push_bit n (1 :: u64) - 1) :: u32) = mask n"
proof -
  assume "n \<le> 32"
  have "push_bit n (1 :: u64) - 1 = mask n"
    by (simp add: push_bit_of_1 mask_eq_exp_minus_1)
  with \<open>n \<le> 32\<close> show ?thesis
    by (simp add: ucast_mask_eq min_def)
qed

lemma castInt32_low_bits:
  assumes "1 \<le> unat w" and "unat w \<le> 32"
  shows "\<exists>s. castInt32 val w = Inr s \<and> take_bit (unat w) s = take_bit (unat w) val"
proof -
  from assms have "unat (w - 1) = unat w - 1"
    by (simp add: unat_sub word_le_nat_alt)
  with assms have shift: "\<not> 32 \<le> unat (w - 1)" and width: "\<not> 64 \<le> unat w"
    by simp_all
  have a: "take_bit (unat w) (NOT (mask (unat w)) OR (val AND mask (unat w))) = take_bit (unat w) val"
    by (rule bit_word_eqI) (auto simp add: bit_simps)
  have b: "take_bit (unat w) (val AND mask (unat w)) = take_bit (unat w) val"
    by (rule bit_word_eqI) (auto simp add: bit_simps)
  from shift width have "castInt32 val w =
      (if drop_bit (unat (w - 1)) val AND 1 \<noteq> 0
       then Inr (NOT (mask (unat w)) OR (val AND mask (unat w)))
       else Inr (val AND mask (unat w)))"
    by (simp only: castInt32_def Let_def cast_mask [OF assms(2)] if_False)
  with a b show ?thesis
    by (cases "drop_bit (unat (w - 1)) val AND 1 \<noteq> 0") (simp_all only: if_True if_False simp_thms sum.inject ex_simps)
qed

lemma unat_ucast_down: "unat (ucast (x :: u64) :: u32) = unat x mod 2 ^ 32"
  by (simp add: unsigned_ucast_eq take_bit_eq_mod)

lemma wrapped_before_end:
  "p' \<le> p \<Longrightarrow> 8 * p + m \<le> 8 * (l :: nat) \<Longrightarrow> p' < l \<or> (p' = l \<and> m = 0)"
  by arith

lemma hasRest_enough:
  assumes pb: "unat (posBit obj) < 8" and w: "unat w \<le> 32"
    and fit: "bit_pos obj + unat w \<le> 8 * unat (bufLen obj)"
  shows "hasRest (posByte obj) (posBit obj) 0 w (bufLen obj)"
proof -
  let ?X = "unat (posBit obj) + unat w"
  let ?P = "unat (posByte obj) + ?X div 8"
  from pb w have x: "unat (posBit obj + w) = ?X"
    by (simp add: unat_word_ariths)
  have L: "unat (bufLen obj) < 2 ^ LENGTH(64)"
    by (rule unsigned_less)
  have split: "8 * ?P + ?X mod 8 = bit_pos obj + unat w"
    by (simp add: bit_pos_def)
  with fit have le: "?P \<le> unat (bufLen obj)"
    by simp
  with L have "unat (posByte obj) + unat (ucast (drop_bit 3 (posBit obj + w)) :: u64) < 2 ^ LENGTH(64)"
    by (simp add: unat_carry x)
  then have "unat (posByte obj + ucast (drop_bit 3 (posBit obj + w))) = ?P"
    by (simp only: unat_add_lem [THEN iffD1] unat_carry x)
  then have next_byte:
    "unat (ucast (ucast (posByte obj + ucast (0 :: u32) + ucast (drop_bit 3 (posBit obj + w))) :: u32) :: u64)
       = ?P mod 2 ^ 32"
    by (simp add: unat_ucast_up unat_ucast_down)
  have next_bit: "unat ((posBit obj + w) AND 7) = ?X mod 8"
    by (simp only: unat_and_7 x)
  have "?P mod 2 ^ 32 \<le> ?P"
    by simp
  moreover from split fit have "8 * ?P + ?X mod 8 \<le> 8 * unat (bufLen obj)"
    by (simp only:)
  ultimately have "?P mod 2 ^ 32 < unat (bufLen obj)
      \<or> (?P mod 2 ^ 32 = unat (bufLen obj) \<and> ?X mod 8 = 0)"
    by (rule wrapped_before_end)
  then show ?thesis
    unfolding hasRest_def Let_def word_less_nat_alt word_unat_eq_iff next_byte next_bit
    by auto
qed

text \<open>
  Claim C8: for every width \<open>w\<close> in \<open>[1, 32]\<close> and every reader state (with a bit
  position below 8, on a buffer that holds the \<^verbatim>\<open>bufLen\<close> bytes it promises) with at least
  \<open>w\<close> bits remaining, the unsigned and the signed 32-bit read of \<open>w\<close> bits both succeed
  from that state, and the unsigned value is the signed value truncated to its low \<open>w\<close>
  bits.
\<close>

theorem unsigned_is_truncated_signed:
  assumes "1 \<le> unat w" and "unat w \<le> 32"
    and "unat (posBit obj) < 8" and "buffer_ok obj"
    and "bit_pos obj + unat w \<le> 8 * unat (bufLen obj)"
  shows "\<exists>obj' u s. BinParser_getUInt32 obj w = Done obj' u
           \<and> BinParser_getInt32 obj w = Done obj' s
           \<and> u = take_bit (unat w) s"
proof -
  from assms(1) have nz: "w \<noteq> 0"
    by auto
  have rest: "hasRest (posByte obj) (posBit obj) 0 w (bufLen obj)"
    by (rule hasRest_enough [OF assms(3,2,5)])
  from assms(5) have "2 ^ 32 \<le> unat (bufLen obj) \<or> bit_pos obj + unat w \<le> 8 * unat (bufLen obj)"
    by simp
  from read_loop_ok [OF assms(4) this, of 0] obtain v where
    "read_loop obj (unat w) (of_nat (bit_pos obj div 8)) (of_nat (bit_pos obj mod 8)) 0 = Inr v"
    by blast
  then have loop: "read_loop obj (unat w) (ucast (posByte obj)) (posBit obj) 0 = Inr v"
    by (simp only: canon_of_cursor(1,2) [OF assms(3), symmetric])
  with nz rest have u: "getUInt32 obj w = Done (BIN_PARSER_ADVANCE_POS obj 0 w) v"
    by (simp add: getUInt32_def)
  have "\<not> bit v j" if "unat w \<le> j" for j
    using read_loop_width [OF loop, of 0 j] that by simp
  then have low: "take_bit (unat w) v = v"
    by (rule low_bits_only)
  from castInt32_low_bits [OF assms(1,2), of v] obtain s where
    s: "castInt32 v w = Inr s" and "take_bit (unat w) s = take_bit (unat w) v"
    by blast
  with low have "v = take_bit (unat w) s"
    by simp
  moreover from u s have "getInt32 obj w = Done (BIN_PARSER_ADVANCE_POS obj 0 w) s"
    by (simp add: getInt32_def)
  ultimately show ?thesis
    using u by (simp add: BinParser_getUInt32_def BinParser_getInt32_def)
qed

text \<open>
  The scenario of the specification: from the byte \<open>B4\<close> the three bits \<open>101\<close> are 5 as
  an unsigned and \<open>-3\<close> as a signed value.
\<close>

theorem unsigned_is_truncated_signed_witness:
  "1 \<le> unat (3 :: u32) \<and> unat (3 :: u32) \<le> 32
   \<and> unat (posBit (BinParser_new [0xB4] 1)) < 8
   \<and> buffer_ok (BinParser_new [0xB4] 1)
   \<and> bit_pos (BinParser_new [0xB4] 1) + unat (3 :: u32) \<le> 8 * unat (bufLen (BinParser_new [0xB4] 1))
   \<and> BinParser_getUInt32 (BinParser_new [0xB4] 1) 3
       = Done ((BinParser_new [0xB4] 1)\<lparr>posBit := 3\<rparr>) 5
   \<and> BinParser_getInt32 (BinParser_new [0xB4] 1) 3
       = Done ((BinParser_new [0xB4] 1)\<lparr>posBit := 3\<rparr>) 0xFFFFFFFD
   \<and> sint (0xFFFFFFFD :: u32) = - 3
   \<and> (5 :: u32) = take_bit (unat (3 :: u32)) 0xFFFFFFFD"
proof -
  let ?st = "BinParser_new [0xB4] 1"
  have w: "1 \<le> unat (3 :: u32)" "unat (3 :: u32) \<le> 32"
    by simp_all
  have pb: "unat (posBit ?st) < 8"
    by (simp add: BinParser_new_def)
  have ok: "buffer_ok ?st"
    by (simp add: buffer_ok_def BinParser_new_def)
  have fit: "bit_pos ?st + unat (3 :: u32) \<le> 8 * unat (bufLen ?st)"
    by (simp add: bit_pos_def BinParser_new_def)
  have "read_loop ?st 3 0 0 0 = Inr 5"
    by (simp add: read_loop_step read_bit_def buf_at_def BinParser_new_def)
  then have u: "BinParser_getUInt32 ?st 3 = Done (?st\<lparr>posBit := 3\<rparr>) 5"
    by (simp add: BinParser_getUInt32_def getUInt32_def hasRest_def BIN_PARSER_ADVANCE_POS_def
        BinParser_new_def)
  have "castInt32 5 3 = Inr 0xFFFFFFFD"
    by (simp add: castInt32_def)
  with u have s: "BinParser_getInt32 ?st 3 = Done (?st\<lparr>posBit := 3\<rparr>) 0xFFFFFFFD"
    by (simp add: BinParser_getInt32_def getInt32_def BinParser_getUInt32_def)
  from unsigned_is_truncated_signed [OF w pb ok fit] u s
  have "(5 :: u32) = take_bit (unat (3 :: u32)) 0xFFFFFFFD"
    by auto
  moreover have "sint (0xFFFFFFFD :: u32) = - 3"
    by simp
  ultimately show ?thesis
    using w pb ok fit u s by (intro conjI)
qed

section \<open>Counts and positions beyond 32 bits\<close>

text \<open>
  Claim C9 describes \<^verbatim>\<open>alignBytes(n)\<close> for every \<open>n \<ge> 1\<close> and every cursor within the
  buffer: a cursor that is not aligned moves to the next multiple of \<open>n\<close>, and the call
  fails, leaving the cursor unchanged, only when that position is not within the buffer.
  The code computes the position in the \<^verbatim>\<open>unsigned int\<close> \<^verbatim>\<open>alignedByte\<close>. On a buffer of
  \<open>2 ^ 31 + 2\<close> bytes with the cursor at byte \<open>2 ^ 31 + 1\<close>, the next multiple of
  \<open>2 ^ 31\<close> is \<open>2 ^ 32\<close>, beyond the buffer, and is cut to 0: the call succeeds and moves
  the cursor back to byte 0.
\<close>

theorem alignBytes_wraps:
  "cursor_inv \<lparr>buf = replicate 2147483650 0, bufLen = 2147483650, posByte = 2147483649, posBit = 0\<rparr>
   \<and> buffer_ok \<lparr>buf = replicate 2147483650 0, bufLen = 2147483650, posByte = 2147483649, posBit = 0\<rparr>
   \<and> (2147483649 :: nat) mod 2147483648 = 1
   \<and> ((2147483649 :: nat) div 2147483648 + 1) * 2147483648 = 4294967296
   \<and> BinParser_alignBytes
        \<lparr>buf = replicate 2147483650 0, bufLen = 2147483650, posByte = 2147483649, posBit = 0\<rparr>
        2147483648
       = Done \<lparr>buf = replicate 2147483650 0, bufLen = 2147483650, posByte = 0, posBit = 0\<rparr> ()"
  by (simp add: cursor_inv_def buffer_ok_def BinParser_alignBytes_def alignBytes_def isInBuf_def)

lemma copy_loop_overrun:
  "copy_loop \<lparr>buf = [0, 0], bufLen = 2, posByte = 1, posBit = 0\<rparr> 4294967295 1 = Inl OutOfBounds"
  by (simp add: copy_loop_step buf_at_def)

text \<open>
  Claim C10 says that from a state that satisfies the cursor invariant no operation
  reads the buffer at an index that is not below its length. \<^verbatim>\<open>hasRest\<close> adds the byte count
  to the position in 64 bits and cuts the sum to the \<^verbatim>\<open>unsigned int\<close> \<^verbatim>\<open>nextByte\<close>: for the
  count \<open>2 ^ 32 - 1\<close> at byte 1 of a buffer of two bytes the sum \<open>2 ^ 32\<close> is cut to 0, the
  capacity check passes, and the copy loop of \<^verbatim>\<open>BinParser_getBytes\<close> reads past the second
  byte.
\<close>

theorem getBytes_overrun:
  "cursor_inv \<lparr>buf = [0, 0], bufLen = 2, posByte = 1, posBit = 0\<rparr>
   \<and> buffer_ok \<lparr>buf = [0, 0], bufLen = 2, posByte = 1, posBit = 0\<rparr>
   \<and> hasRest 1 0 0xFFFFFFFF 0 2
   \<and> buf_at \<lparr>buf = [0, 0], bufLen = 2, posByte = 1, posBit = 0\<rparr> 2 = None
   \<and> BinParser_getBytes \<lparr>buf = [0, 0], bufLen = 2, posByte = 1, posBit = 0\<rparr> 0xFFFFFFFF
       = Undefined OutOfBounds"
proof -
  have "hasRest 1 0 0xFFFFFFFF 0 2"
    by (simp add: hasRest_def)
  then show ?thesis
    by (simp add: cursor_inv_def buffer_ok_def buf_at_def BinParser_getBytes_def isByteAligned_def
        copy_loop_overrun)
qed

section \<open>Fixed-width reads of up to 32 bits\<close>

lemma read_loop_next:
  assumes b: "bit_at obj k = Some b" and len: "unat (bufLen obj) < 2 ^ 32"
  shows "read_loop obj (Suc m) (of_nat (k div 8)) (of_nat (k mod 8)) (of_nat a)
           = read_loop obj m (of_nat ((k + 1) div 8)) (of_nat ((k + 1) mod 8))
               (of_nat (2 * a + (if b then 1 else 0)))"
proof -
  from b len have small: "k div 8 < 2 ^ 32"
    by (auto dest: bit_at_in_buffer)
  from b
  have "read_loop obj (Suc m) (of_nat (k div 8)) (of_nat (k mod 8)) (of_nat a)
          = read_loop obj m ((of_nat (k div 8) :: u32) + drop_bit 3 (of_nat (k mod 8) + 1))
              ((of_nat (k mod 8) + 1) AND 7) (push_bit 1 (of_nat a) OR of_bool b)"
    by (simp add: read_bit_canon [OF small])
  then show ?thesis
    by (simp only: next_bit_canon next_byte_canon shift_in_bit)
qed

lemma read_loop_bits:
  assumes "bits_at obj k bs" and len: "unat (bufLen obj) < 2 ^ 32"
  shows "read_loop obj (length bs) (of_nat (k div 8)) (of_nat (k mod 8)) (of_nat a)
           = Inr (of_nat (msb_value a bs))"
  using assms(1)
proof (induction bs arbitrary: k a)
  case Nil
  then show ?case by simp
next
  case (Cons b bs)
  then have b: "bit_at obj k = Some b" and rest: "bits_at obj (k + 1) bs"
    by simp_all
  note IH = Cons.IH [OF rest, of "2 * a + (if b then 1 else 0)"]
  have "length (b # bs) = Suc (length bs)"
    and "msb_value a (b # bs) = msb_value (2 * a + (if b then 1 else 0)) bs"
    by simp_all
  then show ?case
    by (simp only: read_loop_next [OF b len] IH)
qed

lemma advance_bits:
  assumes pb: "unat (posBit obj) < 8" and w: "unat bits \<le> 32"
    and fit: "bit_pos obj + unat bits \<le> 8 * unat (bufLen obj)"
  shows "BIN_PARSER_ADVANCE_POS obj 0 bits = cursor_at obj (bit_pos obj + unat bits)"
proof -
  let ?X = "unat (posBit obj) + unat bits"
  let ?P = "unat (posByte obj) + ?X div 8"
  from pb w have x: "unat (posBit obj + bits) = ?X"
    by (simp add: unat_word_ariths)
  have L: "unat (bufLen obj) < 2 ^ LENGTH(64)"
    by (rule unsigned_less)
  have split: "8 * ?P + ?X mod 8 = bit_pos obj + unat bits"
    by (simp add: bit_pos_def)
  with fit have le: "?P \<le> unat (bufLen obj)"
    by simp
  have d: "(bit_pos obj + unat bits) div 8 = ?P"
    unfolding split [symmetric] by simp
  have m: "(bit_pos obj + unat bits) mod 8 = ?X mod 8"
    unfolding split [symmetric] by simp
  from le L have "unat (posByte obj) + unat (ucast (drop_bit 3 (posBit obj + bits)) :: u64) < 2 ^ LENGTH(64)"
    by (simp add: unat_carry x)
  then have "unat (posByte obj + ucast (drop_bit 3 (posBit obj + bits))) = ?P"
    by (simp only: unat_add_lem [THEN iffD1] unat_carry x)
  moreover from le L have "?P < 2 ^ LENGTH(64)"
    by simp
  then have "unat (of_nat ?P :: u64) = ?P"
    by (simp only: unat_of_nat mod_less)
  ultimately have byte: "posByte obj + ucast (0 :: u32) + ucast (drop_bit 3 (posBit obj + bits))
      = of_nat ((bit_pos obj + unat bits) div 8)"
    by (simp add: word_unat_eq_iff d)
  have "unat ((posBit obj + bits) AND 7) = ?X mod 8"
    by (simp only: unat_and_7 x)
  then have bit: "(posBit obj + bits) AND 7 = of_nat ((bit_pos obj + unat bits) mod 8)"
    by (simp add: word_unat_eq_iff unat_canon_bit m)
  show ?thesis
    unfolding BIN_PARSER_ADVANCE_POS_def cursor_at_def byte bit ..
qed

lemma msb_value_fits: "length bs \<le> 32 \<Longrightarrow> msb_value 0 bs < 2 ^ 32"
proof -
  assume "length bs \<le> 32"
  then have "(2 :: nat) ^ length bs \<le> 2 ^ 32"
    by (intro power_increasing) simp_all
  with msb_value_less [of 0 bs] show ?thesis
    by simp
qed

text \<open>
  On a buffer shorter than $2^{32}$ bytes, with the cursor inside it and \<open>bits\<close> between 1 and
  32 no more than the bits left: \<^verbatim>\<open>BinParser_getUInt32\<close> and \<^verbatim>\<open>BinParser_getUInt64\<close> succeed,
  return the next \<open>bits\<close> bits read most significant bit first, and advance the cursor by
  exactly \<open>bits\<close> bits.
\<close>

theorem getUInt_reads_bits:
  assumes "cursor_inv obj" and "unat (bufLen obj) < 2 ^ 32"
    and "1 \<le> unat bits" and "unat bits \<le> 32"
    and "length bs = unat bits" and "bits_at obj (bit_pos obj) bs"
  shows "BinParser_getUInt32 obj bits
           = Done (cursor_at obj (bit_pos obj + unat bits)) (of_nat (msb_value 0 bs))
         \<and> BinParser_getUInt64 obj bits
           = Done (cursor_at obj (bit_pos obj + unat bits)) (of_nat (msb_value 0 bs))
         \<and> unat (of_nat (msb_value 0 bs) :: u32) = msb_value 0 bs
         \<and> unat (of_nat (msb_value 0 bs) :: u64) = msb_value 0 bs
         \<and> bit_pos (cursor_at obj (bit_pos obj + unat bits)) = bit_pos obj + unat bits"
proof -
  from assms(1) have pb: "unat (posBit obj) < 8"
    by (simp add: cursor_inv_unat)
  from assms(3) have nz: "bits \<noteq> 0"
    by auto
  from assms(3,5) have "bs \<noteq> []"
    by auto
  from bits_at_fit [OF assms(6) this] assms(5)
  have fit: "bit_pos obj + unat bits \<le> 8 * unat (bufLen obj)"
    by simp
  have rest: "hasRest (posByte obj) (posBit obj) 0 bits (bufLen obj)"
    by (rule hasRest_enough [OF pb assms(4) fit])
  from read_loop_bits [OF assms(6,2), of 0] assms(5)
  have "read_loop obj (unat bits) (of_nat (bit_pos obj div 8)) (of_nat (bit_pos obj mod 8)) 0
      = Inr (of_nat (msb_value 0 bs))"
    by simp
  then have loop: "read_loop obj (unat bits) (ucast (posByte obj)) (posBit obj) 0
      = Inr (of_nat (msb_value 0 bs))"
    by (simp only: canon_of_cursor(1,2) [OF pb, symmetric])
  note adv = advance_bits [OF pb assms(4) fit]
  from assms(4,5) have small: "msb_value 0 bs < 2 ^ 32"
    by (intro msb_value_fits) simp
  then have v32: "unat (of_nat (msb_value 0 bs) :: u32) = msb_value 0 bs"
    by (simp add: unat_of_nat)
  from small have "msb_value 0 bs < 2 ^ 64"
    by simp
  then have v64: "unat (of_nat (msb_value 0 bs) :: u64) = msb_value 0 bs"
    by (simp add: unat_of_nat)
  from small have wide: "(ucast (of_nat (msb_value 0 bs) :: u32) :: u64) = of_nat (msb_value 0 bs)"
    by (rule ucast_canon)
  from nz rest loop have "getUInt32 obj bits
      = Done (cursor_at obj (bit_pos obj + unat bits)) (of_nat (msb_value 0 bs))"
    by (simp add: getUInt32_def adv)
  moreover from nz rest loop have "getUInt64 obj bits
      = Done (cursor_at obj (bit_pos obj + unat bits)) (of_nat (msb_value 0 bs))"
    by (simp add: getUInt64_def adv wide)
  moreover note v32 v64 bit_pos_cursor_at [OF fit]
  ultimately show ?thesis
    by (simp add: BinParser_getUInt32_def BinParser_getUInt64_def)
qed

text \<open>
  The scenario of the specification: from the byte \<open>B4\<close> a read of 3 bits returns 5 and
  leaves the cursor at bit 3; a read of 5 bits from there returns 20 and leaves the
  cursor at the end.
\<close>

theorem getUInt_reads_bits_witness:
  "bits_at (BinParser_new [0xB4] 1) 0 [True, False, True]
   \<and> BinParser_getUInt32 (BinParser_new [0xB4] 1) 3
       = Done ((BinParser_new [0xB4] 1)\<lparr>posBit := 3\<rparr>) 5
   \<and> BinParser_getUInt64 (BinParser_new [0xB4] 1) 3
       = Done ((BinParser_new [0xB4] 1)\<lparr>posBit := 3\<rparr>) 5
   \<and> bits_at ((BinParser_new [0xB4] 1)\<lparr>posBit := 3\<rparr>) 3 [True, False, True, False, False]
   \<and> BinParser_getUInt32 ((BinParser_new [0xB4] 1)\<lparr>posBit := 3\<rparr>) 5
       = Done ((BinParser_new [0xB4] 1)\<lparr>posByte := 1\<rparr>) 20
   \<and> BinParser_getUInt64 ((BinParser_new [0xB4] 1)\<lparr>posBit := 3\<rparr>) 5
       = Done ((BinParser_new [0xB4] 1)\<lparr>posByte := 1\<rparr>) 20"
proof -
  let ?a = "BinParser_new [0xB4] 1"
  let ?b = "(BinParser_new [0xB4] 1)\<lparr>posBit := 3\<rparr>"
  have inv: "cursor_inv ?a" "cursor_inv ?b"
    by (simp_all add: cursor_inv_def BinParser_new_def)
  have len: "unat (bufLen ?a) < 2 ^ 32" "unat (bufLen ?b) < 2 ^ 32"
    by (simp_all add: BinParser_new_def)
  have w: "1 \<le> unat (3 :: u32)" "unat (3 :: u32) \<le> 32" "1 \<le> unat (5 :: u32)" "unat (5 :: u32) \<le> 32"
    by simp_all
  have n: "length [True, False, True] = unat (3 :: u32)"
    "length [True, False, True, False, False] = unat (5 :: u32)"
    by simp_all
  have pos: "bit_pos ?a = 0" "bit_pos ?b = 3"
    by (simp_all add: bit_pos_def BinParser_new_def)
  have bits: "bits_at ?a 0 [True, False, True]" "bits_at ?b 3 [True, False, True, False, False]"
    by (simp_all add: bit_at_def buf_at_def BinParser_new_def)
  from getUInt_reads_bits [OF inv(1) len(1) w(1,2) n(1), unfolded pos, OF bits(1)]
  have a: "BinParser_getUInt32 ?a 3 = Done ?b 5" "BinParser_getUInt64 ?a 3 = Done ?b 5"
    by (simp_all add: cursor_at_def BinParser_new_def)
  from getUInt_reads_bits [OF inv(2) len(2) w(3,4) n(2), unfolded pos, OF bits(2)]
  have b: "BinParser_getUInt32 ?b 5 = Done (?a\<lparr>posByte := 1\<rparr>) 20"
    "BinParser_getUInt64 ?b 5 = Done (?a\<lparr>posByte := 1\<rparr>) 20"
    by (simp_all add: cursor_at_def BinParser_new_def)
  from bits a b show ?thesis
    by (intro conjI)
qed

section \<open>Alignment on buffers of at most $2^{31}$ bytes\<close>

lemma next_multiple_fits:
  assumes "p < 2 ^ 31" and "0 < n" and "n < 2 ^ 32"
  shows "(p div n + 1) * n < (2 :: nat) ^ 32"
proof (cases "p < n")
  case True
  with assms(3) show ?thesis by simp
next
  case False
  have low: "p div n * n \<le> p"
    by simp
  have "(p div n + 1) * n = p div n * n + n"
    by simp
  also from low False have "\<dots> \<le> p + p"
    by (intro add_mono) simp_all
  also from assms(1) have "p + p < 2 ^ 32"
    by simp
  finally show ?thesis .
qed

text \<open>
  On a buffer of at most $2^{31}$ bytes, with the cursor inside it and \<open>n\<close> at least 1:
  \<^verbatim>\<open>alignBytes\<close> leaves an aligned cursor where it is; otherwise it moves the cursor to the
  next multiple of \<open>n\<close> with bit position 0 when that byte is inside the buffer, and fails
  with the state unchanged when it is not.
\<close>

theorem alignBytes_small_buffer:
  assumes nz: "bytes \<noteq> 0" and len: "unat (bufLen obj) \<le> 2 ^ 31"
    and inb: "posByte obj < bufLen obj"
  shows "alignBytes obj bytes =
     (if unat (posByte obj) mod unat bytes = 0 \<and> posBit obj = 0 then Done obj ()
      else if (unat (posByte obj) div unat bytes + 1) * unat bytes < unat (bufLen obj)
           then Done (obj\<lparr>posByte := of_nat ((unat (posByte obj) div unat bytes + 1) * unat bytes),
                         posBit := 0\<rparr>) ()
           else Failed 1 obj)"
proof -
  let ?p = "unat (posByte obj)"
  let ?n = "unat bytes"
  let ?next = "(?p div ?n + 1) * ?n"
  from nz have n: "0 < ?n"
    by (simp add: unat_gt_0)
  have n32: "?n < 2 ^ LENGTH(32)"
    by (rule unsigned_less)
  from inb len have p: "?p < 2 ^ 31"
    by (simp add: word_less_nat_alt)
  have "unat (posByte obj mod ucast bytes) = ?p mod ?n"
    by (simp add: unat_mod unat_ucast_up)
  moreover from n n32 have "?p mod ?n < 2 ^ 32"
    by (intro less_trans [OF mod_less_divisor]) simp_all
  ultimately have rem: "unat (ucast (posByte obj mod ucast bytes) :: u32) = ?p mod ?n"
    by (simp add: unat_ucast_down)
  then have rem64: "unat (ucast (ucast (posByte obj mod ucast bytes) :: u32) :: u64) = ?p mod ?n"
    by (simp add: unat_ucast_up)
  have "?p mod ?n \<le> ?p"
    by simp
  with rem64 have "unat (posByte obj - ucast (ucast (posByte obj mod ucast bytes) :: u32))
      = ?p - ?p mod ?n"
    by (simp add: unat_sub word_le_nat_alt)
  moreover have "?p - ?p mod ?n + ?n = ?next"
    by (simp add: minus_mod_eq_div_mult)
  moreover from next_multiple_fits [OF p n] n32 have fits: "?next < 2 ^ 32"
    by simp
  ultimately have "unat (posByte obj - ucast (ucast (posByte obj mod ucast bytes) :: u32))
      + unat (ucast bytes :: u64) < 2 ^ LENGTH(64)"
    by (simp add: unat_ucast_up)
  then have "unat (posByte obj - ucast (ucast (posByte obj mod ucast bytes) :: u32) + ucast bytes)
      = unat (posByte obj - ucast (ucast (posByte obj mod ucast bytes) :: u32))
        + unat (ucast bytes :: u64)"
    by (simp only: unat_add_lem [THEN iffD1])
  with \<open>unat (posByte obj - ucast (ucast (posByte obj mod ucast bytes) :: u32)) = ?p - ?p mod ?n\<close>
    \<open>?p - ?p mod ?n + ?n = ?next\<close>
  have sum: "unat (posByte obj - ucast (ucast (posByte obj mod ucast bytes) :: u32) + ucast bytes)
      = ?next"
    by (simp add: unat_ucast_up)
  with fits have aligned: "unat (ucast (ucast (posByte obj
        - ucast (ucast (posByte obj mod ucast bytes) :: u32) + ucast bytes) :: u32) :: u64) = ?next"
    by (simp add: unat_ucast_up unat_ucast_down)
  from fits have "unat (of_nat ?next :: u64) = ?next"
    by (simp only: unat_of_nat) simp
  with aligned have cast: "(ucast (ucast (posByte obj
        - ucast (ucast (posByte obj mod ucast bytes) :: u32) + ucast bytes) :: u32) :: u64)
      = of_nat ?next"
    by (simp only: word_unat_eq_iff)
  have zero: "(ucast (posByte obj mod ucast bytes) :: u32) = 0 \<longleftrightarrow> ?p mod ?n = 0"
    by (simp only: rem [symmetric] unat_eq_0)
  have inbuf: "isInBuf (of_nat ?next) (bufLen obj) \<longleftrightarrow> ?next < unat (bufLen obj)"
    using \<open>unat (of_nat ?next :: u64) = ?next\<close> by (simp add: isInBuf_def word_less_nat_alt)
  from nz inb show ?thesis
    unfolding alignBytes_def Let_def cast zero inbuf
    by (simp add: isInBuf_def)
qed

text \<open>
  In a buffer of 8 bytes, from byte 1 bit 3: aligning to 4 moves the cursor to byte 4,
  aligning to 8 fails since byte 8 is not in the buffer.
\<close>

theorem alignBytes_small_buffer_witness:
  "alignBytes \<lparr>buf = [0, 1, 2, 3, 4, 5, 6, 7], bufLen = 8, posByte = 1, posBit = 3\<rparr> 4
     = Done \<lparr>buf = [0, 1, 2, 3, 4, 5, 6, 7], bufLen = 8, posByte = 4, posBit = 0\<rparr> ()
   \<and> alignBytes \<lparr>buf = [0, 1, 2, 3, 4, 5, 6, 7], bufLen = 8, posByte = 1, posBit = 3\<rparr> 8
     = Failed 1 \<lparr>buf = [0, 1, 2, 3, 4, 5, 6, 7], bufLen = 8, posByte = 1, posBit = 3\<rparr>"
  using alignBytes_small_buffer
    [of 4 "\<lparr>buf = [0, 1, 2, 3, 4, 5, 6, 7], bufLen = 8, posByte = 1, posBit = 3\<rparr>"]
    alignBytes_small_buffer
    [of 8 "\<lparr>buf = [0, 1, 2, 3, 4, 5, 6, 7], bufLen = 8, posByte = 1, posBit = 3\<rparr>"]
  by simp

section \<open>Reads stay inside a buffer of at most $2^{31}$ bytes\<close>

lemma fits_arith:
  assumes "s = p + x div 8" and "s < l \<or> (s = l \<and> x mod 8 = 0)"
  shows "8 * p + x \<le> 8 * (l :: nat)"
proof -
  define q where "q = x div 8"
  define r where "r = x mod 8"
  have x: "x = 8 * q + r"
    by (simp add: q_def r_def)
  have "r < 8"
    by (simp add: r_def)
  moreover from assms have "p + q < l \<or> (p + q = l \<and> r = 0)"
    by (simp add: q_def r_def)
  ultimately show ?thesis
    unfolding x by linarith
qed

lemma hasRest_fits:
  assumes x32: "unat pBit + unat bits < 2 ^ 32"
    and s32: "unat pByte + unat bytes + (unat pBit + unat bits) div 8 < 2 ^ 32"
    and rest: "hasRest pByte pBit bytes bits len"
  shows "8 * (unat pByte + unat bytes) + (unat pBit + unat bits) \<le> 8 * unat len"
proof -
  let ?X = "unat pBit + unat bits"
  let ?S = "unat pByte + unat bytes + ?X div 8"
  from x32 have x: "unat (pBit + bits) = ?X"
    by (simp add: unat_word_ariths)
  from s32 have "?S < 2 ^ 64"
    by simp
  then have s64: "?S < 2 ^ LENGTH(64)"
    by simp
  then have "unat pByte + unat (ucast bytes :: u64) < 2 ^ LENGTH(64)"
    by (simp add: unat_ucast_up)
  then have one: "unat (pByte + ucast bytes) = unat pByte + unat bytes"
    by (simp only: unat_add_lem [THEN iffD1] unat_ucast_up)
  with s64 have "unat (pByte + ucast bytes) + unat (ucast (drop_bit 3 (pBit + bits)) :: u64)
      < 2 ^ LENGTH(64)"
    by (simp only: unat_carry x)
  then have "unat (pByte + ucast bytes + ucast (drop_bit 3 (pBit + bits))) = ?S"
    by (simp only: unat_add_lem [THEN iffD1] unat_carry x one)
  with s32 have next_byte:
    "unat (ucast (ucast (pByte + ucast bytes + ucast (drop_bit 3 (pBit + bits))) :: u32) :: u64) = ?S"
    by (simp add: unat_ucast_up unat_ucast_down)
  have next_bit: "unat ((pBit + bits) AND 7) = ?X mod 8"
    by (simp only: unat_and_7 x)
  from rest have "?S < unat len \<or> (?S = unat len \<and> ?X mod 8 = 0)"
    unfolding hasRest_def Let_def word_less_nat_alt word_unat_eq_iff next_byte next_bit
    by (auto simp add: unat_eq_0 split: if_splits)
  with refl [of ?S] have "8 * (unat pByte + unat bytes) + ?X \<le> 8 * unat len"
    by (rule fits_arith)
  then show ?thesis .
qed

lemma read_bit_in_bounds:
  "buffer_ok obj \<Longrightarrow> i < unat (bufLen obj) \<Longrightarrow> read_bit obj i pBit \<noteq> Inl OutOfBounds"
  by (simp add: read_bit_def buf_at_def buffer_ok_def)

lemma copy_loop_ok:
  "buffer_ok obj \<Longrightarrow> unat pB + n \<le> unat (bufLen obj) \<Longrightarrow> \<exists>bs. copy_loop obj n pB = Inr bs"
proof (induction n arbitrary: pB)
  case 0
  then show ?case by simp
next
  case (Suc n)
  from Suc.prems have "buf_at obj (unat pB) = Some (buf obj ! unat pB)"
    by (simp add: buf_at_def buffer_ok_def)
  moreover have "unat (pB + 1) \<le> unat pB + 1"
    using unat_sum_le [of pB 1] by simp
  with Suc.prems(2) have "unat (pB + 1) + n \<le> unat (bufLen obj)"
    by simp
  from Suc.IH [OF Suc.prems(1) this] obtain bs where "copy_loop obj n (pB + 1) = Inr bs"
    by blast
  ultimately show ?case
    by simp
qed

lemma glm_suffix_in_bounds:
  "buffer_ok obj \<Longrightarrow> glm_suffix obj n pByte pBit acc \<noteq> Faulted OutOfBounds"
proof (induction n arbitrary: pByte pBit acc)
  case 0
  then show ?case by simp
next
  case (Suc n)
  show ?case
  proof (cases "ucast pByte < bufLen obj")
    case True
    then have "unat pByte < unat (bufLen obj)"
      by (simp add: word_less_nat_alt unat_ucast_up)
    from read_bit_in_bounds [OF Suc.prems this] Suc.IH [OF Suc.prems] True show ?thesis
      by (auto split: sum.splits)
  next
    case False
    then show ?thesis by simp
  qed
qed

lemma glm_prefix_in_bounds:
  assumes ok: "buffer_ok obj" and run: "glm_prefix obj pByte pBit zeros = Some e"
  shows "e \<noteq> Faulted OutOfBounds"
proof -
  have "buffer_ok obj \<longrightarrow> e \<noteq> Faulted OutOfBounds"
    using run
  proof (rule glm_prefix.raw_induct [where P = "\<lambda>obj pByte pBit zeros e. buffer_ok obj \<longrightarrow> e \<noteq> Faulted OutOfBounds", rotated])
    fix rec obj' pByte' pBit' zeros' y
    assume IH: "\<And>obj pByte pBit zeros y. rec obj pByte pBit zeros = Some y
        \<Longrightarrow> buffer_ok obj \<longrightarrow> y \<noteq> Faulted OutOfBounds"
      and body: "(if ucast pByte' < bufLen obj' then
        (if bufLen obj' \<le> ucast pByte' then Some (Return 1)
         else case read_bit obj' (unat pByte') pBit' of
                Inl f \<Rightarrow> Some (Faulted f)
              | Inr b \<Rightarrow>
                  if b = 1 then Some (Left pByte' pBit' zeros')
                  else rec obj' (pByte' + drop_bit 3 (pBit' + 1)) ((pBit' + 1) AND 7)
                         (zeros' + 1))
      else Some (Left pByte' pBit' zeros')) = Some y"
    show "buffer_ok obj' \<longrightarrow> y \<noteq> Faulted OutOfBounds"
    proof
      assume ok': "buffer_ok obj'"
      show "y \<noteq> Faulted OutOfBounds"
      proof (cases "ucast pByte' < bufLen obj'")
        case True
        then have "unat pByte' < unat (bufLen obj')"
          by (simp add: word_less_nat_alt unat_ucast_up)
        from read_bit_in_bounds [OF ok' this] body IH ok' True show ?thesis
          by (auto split: sum.splits if_splits)
      next
        case False
        with body show ?thesis by auto
      qed
    qed
  qed
  with ok show ?thesis
    by simp
qed

lemma reads_fit:
  assumes inv: "cursor_inv obj" and len: "unat (bufLen obj) \<le> 2 ^ 31"
    and bits: "unat bits < 2 ^ 31"
    and rest: "hasRest (posByte obj) (posBit obj) 0 bits (bufLen obj)"
  shows "bit_pos obj + unat bits \<le> 8 * unat (bufLen obj)"
proof -
  from inv have pb: "unat (posBit obj) < 8" and pB: "unat (posByte obj) \<le> unat (bufLen obj)"
    by (auto simp add: cursor_inv_unat)
  from pb bits have x: "unat (posBit obj) + unat bits < 2 ^ 31 + 8"
    by simp
  then have x32: "unat (posBit obj) + unat bits < 2 ^ 32"
    by simp
  from x have "(unat (posBit obj) + unat bits) div 8 < 2 ^ 31"
    by simp
  with pB len
  have "unat (posByte obj) + unat (0 :: u32) + (unat (posBit obj) + unat bits) div 8 < 2 ^ 32"
    by simp
  from hasRest_fits [OF x32 this rest] show ?thesis
    by (simp add: bit_pos_def)
qed

lemma bytes_fit:
  assumes inv: "cursor_inv obj" and len: "unat (bufLen obj) \<le> 2 ^ 31"
    and bytes: "unat bytes < 2 ^ 31" and aligned: "posBit obj = 0"
    and rest: "hasRest (posByte obj) (posBit obj) bytes 0 (bufLen obj)"
  shows "unat (posByte obj) + unat bytes \<le> unat (bufLen obj)"
proof -
  from inv have pB: "unat (posByte obj) \<le> unat (bufLen obj)"
    by (auto simp add: cursor_inv_unat)
  from aligned have x32: "unat (posBit obj) + unat (0 :: u32) < 2 ^ 32"
    by simp
  from pB len bytes aligned
  have "unat (posByte obj) + unat bytes + (unat (posBit obj) + unat (0 :: u32)) div 8 < 2 ^ 32"
    by simp
  from hasRest_fits [OF x32 this rest] aligned show ?thesis
    by simp
qed

lemma getBool_in_bounds:
  assumes "cursor_inv obj" and "buffer_ok obj" and "unat (bufLen obj) \<le> 2 ^ 31"
  shows "getBool obj \<noteq> Undefined OutOfBounds"
proof (cases "hasRest (posByte obj) (posBit obj) 0 1 (bufLen obj)")
  case True
  have "unat (1 :: u32) < 2 ^ 31"
    by simp
  from reads_fit [OF assms(1,3) this True] assms(1)
  have "unat (posByte obj) < unat (bufLen obj)"
    by (simp add: bit_pos_def cursor_inv_unat)
  from read_bit_in_bounds [OF assms(2) this, of "posBit obj"] True show ?thesis
    by (auto simp add: getBool_def split: sum.splits)
next
  case False
  then show ?thesis
    by (simp add: getBool_def)
qed

lemma read_loop_in_bounds:
  assumes inv: "cursor_inv obj" and ok: "buffer_ok obj" and len: "unat (bufLen obj) \<le> 2 ^ 31"
    and bits: "unat bits < 2 ^ 31"
    and rest: "hasRest (posByte obj) (posBit obj) 0 bits (bufLen obj)"
  shows "\<exists>v. read_loop obj (unat bits) (ucast (posByte obj)) (posBit obj) 0 = Inr v"
proof -
  from inv have pb: "unat (posBit obj) < 8"
    by (simp add: cursor_inv_unat)
  from reads_fit [OF inv len bits rest]
  have "2 ^ 32 \<le> unat (bufLen obj) \<or> bit_pos obj + unat bits \<le> 8 * unat (bufLen obj)"
    by simp
  from read_loop_ok [OF ok this, of 0] obtain v where
    "read_loop obj (unat bits) (of_nat (bit_pos obj div 8)) (of_nat (bit_pos obj mod 8)) 0 = Inr v"
    by blast
  then have "read_loop obj (unat bits) (ucast (posByte obj)) (posBit obj) 0 = Inr v"
    by (simp only: canon_of_cursor(1,2) [OF pb, symmetric])
  then show ?thesis ..
qed

lemma getUInt32_defined:
  assumes "cursor_inv obj" and "buffer_ok obj" and "unat (bufLen obj) \<le> 2 ^ 31"
    and "unat bits < 2 ^ 31"
  shows "getUInt32 obj bits \<noteq> Undefined f"
proof (cases "hasRest (posByte obj) (posBit obj) 0 bits (bufLen obj)")
  case True
  from read_loop_in_bounds [OF assms True] show ?thesis
    by (auto simp add: getUInt32_def)
next
  case False
  then show ?thesis
    by (simp add: getUInt32_def)
qed

lemma getUInt64_defined:
  assumes "cursor_inv obj" and "buffer_ok obj" and "unat (bufLen obj) \<le> 2 ^ 31"
    and "unat bits < 2 ^ 31"
  shows "getUInt64 obj bits \<noteq> Undefined f"
proof (cases "hasRest (posByte obj) (posBit obj) 0 bits (bufLen obj)")
  case True
  from read_loop_in_bounds [OF assms True] show ?thesis
    by (auto simp add: getUInt64_def)
next
  case False
  then show ?thesis
    by (simp add: getUInt64_def)
qed

lemma castInt32_fault: "castInt32 v w = Inl f \<Longrightarrow> f = ShiftRange"
  by (simp add: castInt32_def Let_def split: if_splits)

lemma castInt64_fault: "castInt64 v w = Inl f \<Longrightarrow> f = ShiftRange"
  by (simp add: castInt64_def Let_def split: if_splits)

lemma getInt32_in_bounds:
  assumes "cursor_inv obj" and "buffer_ok obj" and "unat (bufLen obj) \<le> 2 ^ 31"
    and "unat bits < 2 ^ 31"
  shows "getInt32 obj bits \<noteq> Undefined OutOfBounds"
  using getUInt32_defined [OF assms, of OutOfBounds]
  by (auto simp add: getInt32_def split: ret.splits sum.splits dest: castInt32_fault)

lemma getInt64_in_bounds:
  assumes "cursor_inv obj" and "buffer_ok obj" and "unat (bufLen obj) \<le> 2 ^ 31"
    and "unat bits < 2 ^ 31"
  shows "getInt64 obj bits \<noteq> Undefined OutOfBounds"
  using getUInt64_defined [OF assms, of OutOfBounds]
  by (auto simp add: getInt64_def split: ret.splits sum.splits dest: castInt64_fault)

lemma getBytes_defined:
  assumes inv: "cursor_inv obj" and ok: "buffer_ok obj" and len: "unat (bufLen obj) \<le> 2 ^ 31"
    and bytes: "unat bytes < 2 ^ 31"
  shows "BinParser_getBytes obj bytes \<noteq> Undefined f"
proof (cases "isByteAligned obj \<and> hasRest (posByte obj) (posBit obj) bytes 0 (bufLen obj)")
  case True
  then have aligned: "posBit obj = 0"
    by (simp add: isByteAligned_def)
  from True have rest: "hasRest (posByte obj) (posBit obj) bytes 0 (bufLen obj)"
    by blast
  have "unat (ucast (posByte obj) :: u32) \<le> unat (posByte obj)"
    by (simp add: unat_ucast_down)
  with bytes_fit [OF inv len bytes aligned rest]
  have "unat (ucast (posByte obj) :: u32) + unat bytes \<le> unat (bufLen obj)"
    by simp
  from copy_loop_ok [OF ok this] True show ?thesis
    by (auto simp add: BinParser_getBytes_def)
next
  case False
  then show ?thesis
    by (auto simp add: BinParser_getBytes_def)
qed

lemma glm_rest_in_bounds:
  assumes "buffer_ok obj" and "e \<noteq> Faulted OutOfBounds"
  shows "glm_rest obj e \<noteq> Undefined OutOfBounds"
proof (cases e)
  case (Left pByte pBit zeros)
  with glm_suffix_in_bounds [OF assms(1), of "unat zeros" "pByte + drop_bit 3 (pBit + 1)"
      "(pBit + 1) AND 7" 0]
  show ?thesis
    by (auto simp add: glm_rest_def split: loop_exit.splits)
qed (use assms(2) in \<open>simp_all add: glm_rest_def\<close>)

lemma getGlm_in_bounds:
  assumes inv: "cursor_inv obj" and ok: "buffer_ok obj" and len: "unat (bufLen obj) < 2 ^ 32"
  shows "\<exists>r. getGlm obj = Some r \<and> r \<noteq> Undefined OutOfBounds"
proof -
  from inv have pb: "unat (posBit obj) < 8"
    and k: "bit_pos obj \<le> 8 * unat (bufLen obj)"
    by (auto simp add: cursor_inv_unat bit_pos_def)
  from glm_prefix_exit [OF k len, of 0] obtain e where
    "glm_prefix obj (of_nat (bit_pos obj div 8)) (of_nat (bit_pos obj mod 8)) 0 = Some e"
    by blast
  then have e: "glm_prefix obj (ucast (posByte obj)) (posBit obj) 0 = Some e"
    by (simp only: canon_of_cursor(1,2) [OF pb, symmetric])
  from glm_rest_in_bounds [OF ok glm_prefix_in_bounds [OF ok e]] e show ?thesis
    by (simp add: getGlm_def)
qed

lemma getSGlm_in_bounds:
  assumes "cursor_inv obj" and "buffer_ok obj" and "unat (bufLen obj) < 2 ^ 32"
  shows "\<exists>r. getSGlm obj = Some r \<and> r \<noteq> Undefined OutOfBounds"
proof -
  from getGlm_in_bounds [OF assms] obtain r where "getGlm obj = Some r"
    and "r \<noteq> Undefined OutOfBounds"
    by blast
  then show ?thesis
    by (cases r) (simp_all add: getSGlm_def)
qed

lemma effect_in_bounds: "r \<noteq> Undefined f \<Longrightarrow> effect r \<noteq> Undefined f"
  by (cases r) simp_all

text \<open>
  On a buffer of at most $2^{31}$ bytes that holds the \<^verbatim>\<open>bufLen\<close> bytes it promises, from a
  state that satisfies the cursor invariant, every operation whose bit or byte count is
  below $2^{31}$ returns, and it never reads the buffer at an index at or beyond its length.
\<close>

theorem small_buffer_in_bounds:
  assumes inv: "cursor_inv obj" and ok: "buffer_ok obj" and len: "unat (bufLen obj) \<le> 2 ^ 31"
    and small: "small_count opn"
  shows "\<exists>r. run_op opn obj = Some r \<and> r \<noteq> Undefined OutOfBounds"
proof -
  from len have len32: "unat (bufLen obj) < 2 ^ 32"
    by simp
  show ?thesis
  proof (cases opn)
    case GetBool
    with effect_in_bounds [OF getBool_in_bounds [OF inv ok len]] show ?thesis
      by (simp add: BinParser_getBool_def)
  next
    case (GetUInt32 bits)
    with small effect_in_bounds [OF getUInt32_defined [OF inv ok len, of bits OutOfBounds]]
    show ?thesis
      by (simp add: BinParser_getUInt32_def)
  next
    case (GetUInt64 bits)
    with small effect_in_bounds [OF getUInt64_defined [OF inv ok len, of bits OutOfBounds]]
    show ?thesis
      by (simp add: BinParser_getUInt64_def)
  next
    case (GetInt32 bits)
    with small effect_in_bounds [OF getInt32_in_bounds [OF inv ok len, of bits]] show ?thesis
      by (simp add: BinParser_getInt32_def)
  next
    case (GetInt64 bits)
    with small effect_in_bounds [OF getInt64_in_bounds [OF inv ok len, of bits]] show ?thesis
      by (simp add: BinParser_getInt64_def)
  next
    case (GetBytes bytes)
    with small effect_in_bounds [OF getBytes_defined [OF inv ok len, of bytes OutOfBounds]]
    show ?thesis
      by simp
  next
    case GetGlm
    from getGlm_in_bounds [OF inv ok len32] obtain r where "getGlm obj = Some r"
      and "r \<noteq> Undefined OutOfBounds"
      by blast
    with GetGlm effect_in_bounds [of r OutOfBounds] show ?thesis
      by (simp add: BinParser_getGlm_def)
  next
    case GetSGlm
    from getSGlm_in_bounds [OF inv ok len32] obtain r where "getSGlm obj = Some r"
      and "r \<noteq> Undefined OutOfBounds"
      by blast
    with GetSGlm effect_in_bounds [of r OutOfBounds] show ?thesis
      by (simp add: BinParser_getSGlm_def)
  next
    case AlignByte
    then show ?thesis
      by (simp add: BinParser_alignByte_def alignByte_def)
  next
    case (AlignBytes bytes)
    then show ?thesis
      by (simp add: BinParser_alignBytes_def alignBytes_def Let_def)
  next
    case (Seek pByte pBit)
    then show ?thesis
      by (simp add: BinParser_seek_def seek'_def)
  next
    case (Skip bytes bits)
    then show ?thesis
      by (simp add: BinParser_skip_def seek'_def Let_def)
  next
    case (Reset b n)
    then show ?thesis
      by (simp add: BinParser_reset_def)
  qed
qed

text \<open>
  A buffer of two bytes, the cursor at byte 1: reading one byte succeeds, and so does
  reading eight bits; the byte is the last one of the buffer.
\<close>

theorem small_buffer_in_bounds_witness:
  "run_op (GetBytes 1) \<lparr>buf = [0, 0], bufLen = 2, posByte = 1, posBit = 0\<rparr>
     = Some (Done \<lparr>buf = [0, 0], bufLen = 2, posByte = 2, posBit = 0\<rparr> ())
   \<and> Done \<lparr>buf = [0, 0], bufLen = 2, posByte = 2, posBit = 0\<rparr> () \<noteq> Undefined OutOfBounds
   \<and> run_op (GetBytes 2) \<lparr>buf = [0, 0], bufLen = 2, posByte = 1, posBit = 0\<rparr>
     = Some (Failed 1 \<lparr>buf = [0, 0], bufLen = 2, posByte = 1, posBit = 0\<rparr>)"
proof -
  let ?obj = "\<lparr>buf = [0, 0], bufLen = 2, posByte = 1, posBit = 0\<rparr>"
  have "cursor_inv ?obj" and "buffer_ok ?obj" and "unat (bufLen ?obj) \<le> 2 ^ 31"
    and "small_count (GetBytes 1)" and "small_count (GetBytes 2)"
    by (simp_all add: cursor_inv_def buffer_ok_def)
  from small_buffer_in_bounds [OF this(1,2,3,4)] small_buffer_in_bounds [OF this(1,2,3,5)]
  show ?thesis
    by (simp add: BinParser_getBytes_def isByteAligned_def hasRest_def buf_at_def
        BIN_PARSER_ADVANCE_POS_def copy_loop_step word_less_nat_alt)
qed

section \<open>What every public operation does to the cursor\<close>

text \<open>
  A read that has passed the capacity check leaves the cursor inside the buffer or at its
  end: on a buffer of at most $2^{31}$ bytes and for a count below $2^{31}$ the sum that
  \<^verbatim>\<open>hasRest\<close> compares with \<^verbatim>\<open>bufLen\<close> is the position the macro moves the cursor to.
\<close>

lemma read_keeps_inv:
  assumes inv: "cursor_inv obj" and len: "unat (bufLen obj) \<le> 2 ^ 31"
    and bits: "unat bits < 2 ^ 31"
    and rest: "hasRest (posByte obj) (posBit obj) 0 bits (bufLen obj)"
  shows "cursor_inv (BIN_PARSER_ADVANCE_POS obj 0 bits)"
proof -
  from reads_fit [OF inv len bits rest]
  have "bit_pos obj + unat bits \<le> 8 * unat (bufLen obj)" .
  with unat_sum_le [of "posBit obj" bits] show ?thesis
    by (intro advance_inv) (simp add: bit_pos_def)
qed

lemma getUInt32_inv:
  "cursor_inv obj \<Longrightarrow> unat (bufLen obj) \<le> 2 ^ 31 \<Longrightarrow> unat bits < 2 ^ 31
   \<Longrightarrow> getUInt32 obj bits = Done obj' v \<Longrightarrow> cursor_inv obj'"
  by (auto simp add: getUInt32_def read_keeps_inv split: if_splits sum.splits)

lemma getUInt64_inv:
  "cursor_inv obj \<Longrightarrow> unat (bufLen obj) \<le> 2 ^ 31 \<Longrightarrow> unat bits < 2 ^ 31
   \<Longrightarrow> getUInt64 obj bits = Done obj' v \<Longrightarrow> cursor_inv obj'"
  by (auto simp add: getUInt64_def read_keeps_inv split: if_splits sum.splits)

lemma getInt32_inv:
  "cursor_inv obj \<Longrightarrow> unat (bufLen obj) \<le> 2 ^ 31 \<Longrightarrow> unat bits < 2 ^ 31
   \<Longrightarrow> getInt32 obj bits = Done obj' v \<Longrightarrow> cursor_inv obj'"
  by (auto simp add: getInt32_def getUInt32_inv split: ret.splits sum.splits)

lemma getInt64_inv:
  "cursor_inv obj \<Longrightarrow> unat (bufLen obj) \<le> 2 ^ 31 \<Longrightarrow> unat bits < 2 ^ 31
   \<Longrightarrow> getInt64 obj bits = Done obj' v \<Longrightarrow> cursor_inv obj'"
  by (auto simp add: getInt64_def getUInt64_inv split: ret.splits sum.splits)

lemma getBool_inv:
  assumes inv: "cursor_inv obj" and len: "unat (bufLen obj) \<le> 2 ^ 31"
    and ok: "getBool obj = Done obj' v"
  shows "cursor_inv obj'"
proof -
  from ok have rest: "hasRest (posByte obj) (posBit obj) 0 1 (bufLen obj)"
    and obj': "obj' = BIN_PARSER_ADVANCE_POS obj 0 1"
    by (auto simp add: getBool_def split: if_splits sum.splits)
  have "unat (1 :: u32) < 2 ^ 31"
    by simp
  from read_keeps_inv [OF inv len this rest] show ?thesis
    by (simp only: obj')
qed

lemma getBytes_inv:
  assumes inv: "cursor_inv obj" and len: "unat (bufLen obj) \<le> 2 ^ 31"
    and bytes: "unat bytes < 2 ^ 31"
    and ok: "BinParser_getBytes obj bytes = Done obj' v"
  shows "cursor_inv obj'"
proof -
  from ok have al: "posBit obj = 0"
    by (auto simp add: BinParser_getBytes_def isByteAligned_def split: if_splits sum.splits)
  from ok have rest: "hasRest (posByte obj) (posBit obj) bytes 0 (bufLen obj)"
    by (auto simp add: BinParser_getBytes_def split: if_splits sum.splits)
  from ok have obj': "obj' = BIN_PARSER_ADVANCE_POS obj bytes 0"
    by (auto simp add: BinParser_getBytes_def split: if_splits sum.splits)
  from bytes_fit [OF inv len bytes al rest] al show ?thesis
    unfolding obj' by (intro advance_inv) simp
qed

lemma alignByte_defined: "alignByte obj \<noteq> Undefined f"
  by (simp add: alignByte_def)

lemma alignBytes_defined: "alignBytes obj bytes \<noteq> Undefined f"
  by (simp add: alignBytes_def Let_def)

lemma seek_defined: "seek' obj pByte pBit \<noteq> Undefined f"
  by (simp add: seek'_def)

lemma skip_defined: "BinParser_skip obj bytes bits \<noteq> Undefined f"
  by (simp add: BinParser_skip_def Let_def seek_defined)

text \<open>
  Claim C2, as amended: for every public operation and every starting state that satisfies
  the cursor invariant, the call returns, it does not read the buffer at an index at or
  beyond its length, and if it returns success then the resulting state satisfies the
  invariant; provided that the bit position given to \<^verbatim>\<open>seek\<close> is below 8 and that, for the
  reads (boolean, fixed-width, byte-run, Exp-Golomb), the buffer holds the \<^verbatim>\<open>bufLen\<close> bytes
  it promises, is of at most $2^{31}$ bytes, and the bit or byte count asked for is below
  $2^{31}$. \<^verbatim>\<open>alignByte\<close>, \<^verbatim>\<open>alignBytes\<close>, \<^verbatim>\<open>seek\<close>, \<^verbatim>\<open>skip\<close> and \<^verbatim>\<open>reset\<close> need no bound on the
  buffer. A call that runs into a shift undefined in C returns neither success nor an
  error here.
\<close>

theorem success_keeps_invariant:
  assumes inv: "cursor_inv obj" and arg: "bit_arg_ok opn" and small: "small_count opn"
    and lim: "is_read opn \<longrightarrow> buffer_ok obj \<and> unat (bufLen obj) \<le> 2 ^ 31"
  shows "\<exists>r. run_op opn obj = Some r \<and> r \<noteq> Undefined OutOfBounds
           \<and> (\<forall>obj'. r = Done obj' () \<longrightarrow> cursor_inv obj')"
proof (cases "is_read opn")
  case True
  with lim have ok: "buffer_ok obj" and len: "unat (bufLen obj) \<le> 2 ^ 31"
    by simp_all
  from len have len32: "unat (bufLen obj) < 2 ^ 32"
    by simp
  from small_buffer_in_bounds [OF inv ok len small] obtain r where
    r: "run_op opn obj = Some r" and safe: "r \<noteq> Undefined OutOfBounds"
    by blast
  have "cursor_inv obj'" if "r = Done obj' ()" for obj'
  proof (cases opn)
    case GetBool
    with r that inv len show ?thesis
      by (auto simp add: BinParser_getBool_def dest!: effect_Done intro: getBool_inv)
  next
    case (GetUInt32 bits)
    with r that inv len small show ?thesis
      by (auto simp add: BinParser_getUInt32_def dest!: effect_Done intro: getUInt32_inv)
  next
    case (GetUInt64 bits)
    with r that inv len small show ?thesis
      by (auto simp add: BinParser_getUInt64_def dest!: effect_Done intro: getUInt64_inv)
  next
    case (GetInt32 bits)
    with r that inv len small show ?thesis
      by (auto simp add: BinParser_getInt32_def dest!: effect_Done intro: getInt32_inv)
  next
    case (GetInt64 bits)
    with r that inv len small show ?thesis
      by (auto simp add: BinParser_getInt64_def dest!: effect_Done intro: getInt64_inv)
  next
    case (GetBytes bytes)
    with r that inv len small show ?thesis
      by (auto dest!: effect_Done intro: getBytes_inv)
  next
    case GetGlm
    with r that inv len32 show ?thesis
      by (auto simp add: BinParser_getGlm_def dest!: effect_Done intro: getGlm_inv)
  next
    case GetSGlm
    with r that inv len32 show ?thesis
      by (auto simp add: BinParser_getSGlm_def dest!: effect_Done intro: getSGlm_inv)
  qed (use True in simp_all)
  with r safe show ?thesis
    by blast
next
  case False
  show ?thesis
  proof (cases opn)
    case AlignByte
    with inv alignByte_defined [of obj OutOfBounds] show ?thesis
      by (auto simp add: BinParser_alignByte_def intro: alignByte_inv)
  next
    case (AlignBytes bytes)
    with inv alignBytes_defined [of obj bytes OutOfBounds] show ?thesis
      by (auto simp add: BinParser_alignBytes_def intro: alignBytes_inv)
  next
    case (Seek pByte pBit)
    with arg seek_defined [of obj pByte pBit OutOfBounds] show ?thesis
      by (auto simp add: BinParser_seek_def intro: seek_inv)
  next
    case (Skip bytes bits)
    with skip_defined [of obj bytes bits OutOfBounds] show ?thesis
      by (auto intro: skip_inv)
  next
    case (Reset b n)
    then show ?thesis
      by (auto intro: reset_inv simp add: BinParser_reset_def)
  qed (use False in simp_all)
qed

text \<open>
  The hypotheses of the theorem hold for the read of 3 bits from the byte \<open>B4\<close> and for
  a seek to bit 5 of byte 0; both succeed, and the theorem gives the invariant of the
  states they leave.
\<close>

theorem success_keeps_invariant_witness:
  "cursor_inv \<lparr>buf = [0xB4], bufLen = 1, posByte = 0, posBit = 0\<rparr>
   \<and> buffer_ok \<lparr>buf = [0xB4], bufLen = 1, posByte = 0, posBit = 0\<rparr>
   \<and> unat (bufLen \<lparr>buf = [0xB4], bufLen = 1, posByte = 0, posBit = 0\<rparr>) \<le> 2 ^ 31
   \<and> bit_arg_ok (GetUInt32 3) \<and> small_count (GetUInt32 3)
   \<and> run_op (GetUInt32 3) \<lparr>buf = [0xB4], bufLen = 1, posByte = 0, posBit = 0\<rparr>
       = Some (Done \<lparr>buf = [0xB4], bufLen = 1, posByte = 0, posBit = 3\<rparr> ())
   \<and> cursor_inv \<lparr>buf = [0xB4], bufLen = 1, posByte = 0, posBit = 3\<rparr>
   \<and> bit_arg_ok (Seek 0 5) \<and> small_count (Seek 0 5)
   \<and> run_op (Seek 0 5) \<lparr>buf = [0xB4], bufLen = 1, posByte = 0, posBit = 0\<rparr>
       = Some (Done \<lparr>buf = [0xB4], bufLen = 1, posByte = 0, posBit = 5\<rparr> ())
   \<and> cursor_inv \<lparr>buf = [0xB4], bufLen = 1, posByte = 0, posBit = 5\<rparr>"
proof -
  let ?st = "\<lparr>buf = [0xB4], bufLen = 1, posByte = 0, posBit = 0\<rparr>"
  have inv: "cursor_inv ?st"
    by (simp add: cursor_inv_def)
  have ok: "buffer_ok ?st"
    by (simp add: buffer_ok_def)
  have len: "unat (bufLen ?st) \<le> 2 ^ 31"
    by simp
  have arg: "bit_arg_ok (GetUInt32 3)" "bit_arg_ok (Seek 0 5)"
    by simp_all
  have small: "small_count (GetUInt32 3)" "small_count (Seek 0 5)"
    by simp_all
  from ok len have lim: "is_read (GetUInt32 3) \<longrightarrow> buffer_ok ?st \<and> unat (bufLen ?st) \<le> 2 ^ 31"
    "is_read (Seek 0 5) \<longrightarrow> buffer_ok ?st \<and> unat (bufLen ?st) \<le> 2 ^ 31"
    by simp_all
  have "read_loop ?st 3 0 0 0 = Inr 5"
    by (simp add: read_loop_step read_bit_def buf_at_def)
  then have rd: "run_op (GetUInt32 3) ?st
      = Some (Done \<lparr>buf = [0xB4], bufLen = 1, posByte = 0, posBit = 3\<rparr> ())"
    by (simp add: BinParser_getUInt32_def getUInt32_def hasRest_def BIN_PARSER_ADVANCE_POS_def)
  have sk: "run_op (Seek 0 5) ?st
      = Some (Done \<lparr>buf = [0xB4], bufLen = 1, posByte = 0, posBit = 5\<rparr> ())"
    by (simp add: BinParser_seek_def seek'_def isInBuf_def)
  from success_keeps_invariant [OF inv arg(1) small(1) lim(1)] rd
  have c3: "cursor_inv \<lparr>buf = [0xB4], bufLen = 1, posByte = 0, posBit = 3\<rparr>"
    by auto
  from success_keeps_invariant [OF inv arg(2) small(2) lim(2)] sk
  have c5: "cursor_inv \<lparr>buf = [0xB4], bufLen = 1, posByte = 0, posBit = 5\<rparr>"
    by auto
  from inv ok len arg small rd sk c3 c5 show ?thesis
    by blast
qed

text \<open>
  Claim C2 as it is written has no condition on \<^verbatim>\<open>seek\<close>: \<^verbatim>\<open>seek_\<close> checks the byte position
  only and stores the bit position as given, so a seek to bit 9 of byte 0 succeeds and
  leaves a state with \<open>bitPos = 9\<close>.
\<close>

theorem seek_breaks_invariant:
  "cursor_inv \<lparr>buf = [0], bufLen = 1, posByte = 0, posBit = 0\<rparr>
   \<and> run_op (Seek 0 9) \<lparr>buf = [0], bufLen = 1, posByte = 0, posBit = 0\<rparr>
       = Some (Done \<lparr>buf = [0], bufLen = 1, posByte = 0, posBit = 9\<rparr> ())
   \<and> \<not> cursor_inv \<lparr>buf = [0], bufLen = 1, posByte = 0, posBit = 9\<rparr>"
  by (simp add: cursor_inv_def BinParser_seek_def seek'_def isInBuf_def)

text \<open>
  The bounds on the reads cannot be dropped: positions are cut to \<^verbatim>\<open>unsigned int\<close> in
  \<^verbatim>\<open>hasRest\<close> and in the local copies of the readers. On a buffer of \<open>2 ^ 32 + 1\<close> bytes
  with the cursor at its end, the capacity check for one bit passes (the next byte
  position is cut to 1), the bit is read from byte 1, and the cursor is left at bit 1 of
  the end position.
\<close>

lemma large_buffer_breaks_invariant:
  "cursor_inv \<lparr>buf = replicate 4294967297 0, bufLen = 4294967297, posByte = 4294967297, posBit = 0\<rparr>
   \<and> buffer_ok \<lparr>buf = replicate 4294967297 0, bufLen = 4294967297, posByte = 4294967297, posBit = 0\<rparr>
   \<and> run_op (GetUInt32 1)
        \<lparr>buf = replicate 4294967297 0, bufLen = 4294967297, posByte = 4294967297, posBit = 0\<rparr>
       = Some (Done \<lparr>buf = replicate 4294967297 0, bufLen = 4294967297, posByte = 4294967297,
                      posBit = 1\<rparr> ())
   \<and> \<not> cursor_inv \<lparr>buf = replicate 4294967297 0, bufLen = 4294967297, posByte = 4294967297,
                      posBit = 1\<rparr>"
proof -
  let ?st = "\<lparr>buf = replicate 4294967297 0, bufLen = 4294967297, posByte = 4294967297, posBit = 0\<rparr>"
  have rest: "hasRest (posByte ?st) (posBit ?st) 0 1 (bufLen ?st)"
    by (simp add: hasRest_def)
  have loop: "read_loop ?st (unat (1 :: u32)) (ucast (posByte ?st)) (posBit ?st) 0 = Inr 0"
    by (simp add: read_bit_def buf_at_def)
  have "getUInt32 ?st 1 = Done (BIN_PARSER_ADVANCE_POS ?st 0 1) 0"
    unfolding getUInt32_def by (simp only: rest loop) simp
  then have "run_op (GetUInt32 1) ?st
      = Some (Done \<lparr>buf = replicate 4294967297 0, bufLen = 4294967297, posByte = 4294967297,
                      posBit = 1\<rparr> ())"
    by (simp add: BinParser_getUInt32_def BIN_PARSER_ADVANCE_POS_def)
  then show ?thesis
    by (simp add: cursor_inv_def buffer_ok_def)
qed

end
